theory Spec2Isabelle
  imports Main "HOL-Library.Word"
begin

unbundle bit_operations_syntax

section \<open>The 1-Wire bus as seen by the driver\<close>

text \<open>
  The driver in \<^verbatim>\<open>Src/ds18b20.c\<close> touches the hardware only through the HAL: it drives the
  pin low, releases it, busy-waits and samples the pin. Timing is not modelled. What
  remains of one time slot is its kind and, for the slots that sample the pin, the
  level that \<^verbatim>\<open>HAL_GPIO_ReadPin\<close> returns. The HAL is not part of the repository, so the bus
  is a parameter: a record of three functions over an environment state \<open>'b\<close>.
  \<^item> \<open>reset_sample\<close>: the level sampled 80us after the reset pulse of \<^verbatim>\<open>DS18B20_Start\<close>;
  \<^item> \<open>read_sample\<close>: the level sampled in a read slot of \<^verbatim>\<open>DS18B20_read\<close>;
  \<^item> \<open>write_slot\<close>: the effect of a write-0 or write-1 slot on the environment.
  \<open>True\<close> is a high line. The driver's world is the environment state together with
  the chronological trace of the slots it has issued.
\<close>

type_synonym uint8 = "8 word"
type_synonym uint16 = "16 word"
type_synonym uint64 = "64 word"

record 'b bus =
  reset_sample :: "'b \<Rightarrow> bool \<times> 'b"
  read_sample :: "'b \<Rightarrow> bool \<times> 'b"
  write_slot :: "bool \<Rightarrow> 'b \<Rightarrow> 'b"

datatype bus_event = EvReset bool | EvRead bool | EvWrite bool

type_synonym 'b world = "'b \<times> bus_event list"

subsection \<open>Signalling layer\<close>

text \<open>\<^verbatim>\<open>DS18B20_Start\<close>: response is 1 when the sampled pin is low (presence pulse).\<close>

definition DS18B20_Start :: "'b bus \<Rightarrow> 'b world \<Rightarrow> uint8 \<times> 'b world" where
  "DS18B20_Start B w =
     (case reset_sample B (fst w) of (level, e) \<Rightarrow>
        ((if \<not> level then 1 else 0), (e, snd w @ [EvReset level])))"

text \<open>\<^verbatim>\<open>DS18B20_read\<close>: response is 1 when the sampled pin is high.\<close>

definition DS18B20_read :: "'b bus \<Rightarrow> 'b world \<Rightarrow> uint8 \<times> 'b world" where
  "DS18B20_read B w =
     (case read_sample B (fst w) of (level, e) \<Rightarrow>
        ((if level then 1 else 0), (e, snd w @ [EvRead level])))"

definition DS18B20_write0 :: "'b bus \<Rightarrow> 'b world \<Rightarrow> uint8 \<times> 'b world" where
  "DS18B20_write0 B w = (0, (write_slot B False (fst w), snd w @ [EvWrite False]))"

definition DS18B20_write1 :: "'b bus \<Rightarrow> 'b world \<Rightarrow> uint8 \<times> 'b world" where
  "DS18B20_write1 B w = (0, (write_slot B True (fst w), snd w @ [EvWrite True]))"

subsection \<open>Byte transfer layer\<close>

text \<open>\<^verbatim>\<open>DS18B20_readByte\<close>: \<^verbatim>\<open>for (i = 0; i < 8; i++) value |= bit << i;\<close>\<close>

definition readByte_step :: "'b bus \<Rightarrow> nat \<Rightarrow> uint8 \<times> 'b world \<Rightarrow> uint8 \<times> 'b world" where
  "readByte_step B i vw =
     (case DS18B20_read B (snd vw) of (b, w') \<Rightarrow> (fst vw OR push_bit i b, w'))"

definition DS18B20_readByte :: "'b bus \<Rightarrow> 'b world \<Rightarrow> uint8 \<times> 'b world" where
  "DS18B20_readByte B w = fold (readByte_step B) [0..<8] (0, w)"

text \<open>\<^verbatim>\<open>DS18B20_writeData\<close>: \<^verbatim>\<open>if ((data & (1 << i)) == (1 << i)) write1 else write0\<close>.\<close>

definition writeData_step :: "'b bus \<Rightarrow> uint8 \<Rightarrow> nat \<Rightarrow> 'b world \<Rightarrow> 'b world" where
  "writeData_step B data i w =
     (if data AND push_bit i 1 = push_bit i 1
      then snd (DS18B20_write1 B w) else snd (DS18B20_write0 B w))"

definition DS18B20_writeData :: "'b bus \<Rightarrow> 'b world \<Rightarrow> uint8 \<Rightarrow> uint8 \<times> 'b world" where
  "DS18B20_writeData B w data = (0, fold (writeData_step B data) [0..<8] w)"

text \<open>ROM and function commands of \<^verbatim>\<open>Inc/ds18b20.h\<close>.\<close>

definition SEARCH_ROM :: uint8 where "SEARCH_ROM = 0xF0"
definition MATCH_ROM :: uint8 where "MATCH_ROM = 0x55"
definition CONVERT_T :: uint8 where "CONVERT_T = 0x44"
definition READ_SCRATCHPAD :: uint8 where "READ_SCRATCHPAD = 0xBE"

section \<open>CRC-8\<close>

definition crc8_table :: "uint8 list" where
  "crc8_table = [
    0x00, 0x5E, 0xBC, 0xE2, 0x61, 0x3F, 0xDD, 0x83, 0xC2, 0x9C, 0x7E, 0x20, 0xA3, 0xFD, 0x1F, 0x41,
    0x9D, 0xC3, 0x21, 0x7F, 0xFC, 0xA2, 0x40, 0x1E, 0x5F, 0x01, 0xE3, 0xBD, 0x3E, 0x60, 0x82, 0xDC,
    0x23, 0x7D, 0x9F, 0xC1, 0x42, 0x1C, 0xFE, 0xA0, 0xE1, 0xBF, 0x5D, 0x03, 0x80, 0xDE, 0x3C, 0x62,
    0xBE, 0xE0, 0x02, 0x5C, 0xDF, 0x81, 0x63, 0x3D, 0x7C, 0x22, 0xC0, 0x9E, 0x1D, 0x43, 0xA1, 0xFF,
    0x46, 0x18, 0xFA, 0xA4, 0x27, 0x79, 0x9B, 0xC5, 0x84, 0xDA, 0x38, 0x66, 0xE5, 0xBB, 0x59, 0x07,
    0xDB, 0x85, 0x67, 0x39, 0xBA, 0xE4, 0x06, 0x58, 0x19, 0x47, 0xA5, 0xFB, 0x78, 0x26, 0xC4, 0x9A,
    0x65, 0x3B, 0xD9, 0x87, 0x04, 0x5A, 0xB8, 0xE6, 0xA7, 0xF9, 0x1B, 0x45, 0xC6, 0x98, 0x7A, 0x24,
    0xF8, 0xA6, 0x44, 0x1A, 0x99, 0xC7, 0x25, 0x7B, 0x3A, 0x64, 0x86, 0xD8, 0x5B, 0x05, 0xE7, 0xB9,
    0x8C, 0xD2, 0x30, 0x6E, 0xED, 0xB3, 0x51, 0x0F, 0x4E, 0x10, 0xF2, 0xAC, 0x2F, 0x71, 0x93, 0xCD,
    0x11, 0x4F, 0xAD, 0xF3, 0x70, 0x2E, 0xCC, 0x92, 0xD3, 0x8D, 0x6F, 0x31, 0xB2, 0xEC, 0x0E, 0x50,
    0xAF, 0xF1, 0x13, 0x4D, 0xCE, 0x90, 0x72, 0x2C, 0x6D, 0x33, 0xD1, 0x8F, 0x0C, 0x52, 0xB0, 0xEE,
    0x32, 0x6C, 0x8E, 0xD0, 0x53, 0x0D, 0xEF, 0xB1, 0xF0, 0xAE, 0x4C, 0x12, 0x91, 0xCF, 0x2D, 0x73,
    0xCA, 0x94, 0x76, 0x28, 0xAB, 0xF5, 0x17, 0x49, 0x08, 0x56, 0xB4, 0xEA, 0x69, 0x37, 0xD5, 0x8B,
    0x57, 0x09, 0xEB, 0xB5, 0x36, 0x68, 0x8A, 0xD4, 0x95, 0xCB, 0x29, 0x77, 0xF4, 0xAA, 0x48, 0x16,
    0xE9, 0xB7, 0x55, 0x0B, 0x88, 0xD6, 0x34, 0x6A, 0x2B, 0x75, 0x97, 0xC9, 0x4A, 0x14, 0xF6, 0xA8,
    0x74, 0x2A, 0xC8, 0x96, 0x15, 0x4B, 0xA9, 0xF7, 0xB6, 0xE8, 0x0A, 0x54, 0xD7, 0x89, 0x6B, 0x35]"

text \<open>\<^verbatim>\<open>crcGenerator\<close>: \<^verbatim>\<open>index = input ^ initial_crc; return crc8_table[index];\<close>
  The index is a \<^verbatim>\<open>uint8_t\<close>, so it is always inside the 256-entry table.\<close>

definition crcGenerator :: "uint8 \<Rightarrow> uint8 \<Rightarrow> uint8" where
  "crcGenerator initial_crc input = crc8_table ! unat (input XOR initial_crc)"

text \<open>The CRC loop of \<^verbatim>\<open>addressValid\<close> over \<^verbatim>\<open>ROM_code[0..6]\<close>, and its comparison
  with \<^verbatim>\<open>ROM_code[7]\<close> (0 if equal, 1 otherwise). The argument is an 8-byte array.\<close>

definition computed_crc :: "uint8 list \<Rightarrow> uint8" where
  "computed_crc ROM_code = fold (\<lambda>i initial_crc. crcGenerator initial_crc (ROM_code ! i)) [0..<7] 0"

definition addressValid :: "uint8 list \<Rightarrow> uint8" where
  "addressValid ROM_code = (if computed_crc ROM_code \<noteq> ROM_code ! 7 then 1 else 0)"

text \<open>
  The bit-by-bit Dallas/Maxim 1-Wire CRC-8 that the specification names: polynomial
  \<open>x^8 + x^5 + x^4 + 1\<close> (reflected form 0x8C), initial value 0, every data byte fed
  least-significant bit first. One step takes one data bit.
\<close>

definition crc8_bit :: "uint8 \<Rightarrow> bool \<Rightarrow> uint8" where
  "crc8_bit crc b =
     (if bit crc 0 \<noteq> b then drop_bit 1 crc XOR 0x8C else drop_bit 1 crc)"

definition crc8_byte_bitwise :: "uint8 \<Rightarrow> uint8 \<Rightarrow> uint8" where
  "crc8_byte_bitwise crc byte = fold (\<lambda>i c. crc8_bit c (bit byte i)) [0..<8] crc"

definition crc8_bitwise :: "uint8 list \<Rightarrow> uint8" where
  "crc8_bitwise payload = fold (\<lambda>byte c. crc8_byte_bitwise c byte) payload 0"


definition crc8_shift :: "uint8 \<Rightarrow> uint8" where
  "crc8_shift y = (if bit y 0 then drop_bit 1 y XOR 0x8C else drop_bit 1 y)"

definition crc8_shift_nat :: "nat \<Rightarrow> nat" where
  "crc8_shift_nat n = (if odd n then (n div 2) XOR 140 else n div 2)"

definition crc8_shift8_nat :: "nat \<Rightarrow> nat" where
  "crc8_shift8_nat n = crc8_shift_nat (crc8_shift_nat (crc8_shift_nat (crc8_shift_nat
     (crc8_shift_nat (crc8_shift_nat (crc8_shift_nat (crc8_shift_nat n)))))))"

section \<open>ROM search engine\<close>

text \<open>
  \<^verbatim>\<open>onewire_search_state_t\<close>. \<^verbatim>\<open>last_zero_branch\<close> is an \<^verbatim>\<open>int8_t\<close>; the driver only ever
  stores -1 or a bit position below 64 in it, and compares it after promotion to
  \<^verbatim>\<open>int\<close>, so it is an \<open>int\<close> here. The field \<^verbatim>\<open>done\<close> is called \<open>done_flag\<close>.
  \<^verbatim>\<open>address\<close> is the array of 8 bytes.
\<close>

record onewire_search_state =
  last_zero_branch :: int
  done_flag :: bool
  address :: "uint8 list"

definition onewireSearchInit :: "onewire_search_state \<Rightarrow> uint8 \<times> onewire_search_state" where
  "onewireSearchInit state =
     (0, state\<lparr>last_zero_branch := - 1, done_flag := False,
               address := fold (\<lambda>i a. a[i := 0]) [0..<8] (address state)\<rparr>)"

text \<open>The three readings the \<^verbatim>\<open>switch\<close> of \<^verbatim>\<open>searchNext\<close> names.\<close>

definition kConflict :: uint8 where "kConflict = 0x00"
definition kZero :: uint8 where "kZero = 0x02"
definition kOne :: uint8 where "kOne = 0x01"

text \<open>
  The two statements after the \<^verbatim>\<open>switch\<close>: the bit is written into the address, then to
  the bus. The operands of \<^verbatim>\<open>&=\<close> and \<^verbatim>\<open>|=\<close> are promoted to \<^verbatim>\<open>int\<close> and the result is
  truncated to the \<^verbatim>\<open>uint8_t\<close> element; \<^verbatim>\<open>bitValue << bitIndex\<close> is at most \<open>128 * 2^7\<close>
  and cannot overflow the \<^verbatim>\<open>int\<close>.
\<close>

definition write_address_bit :: "uint8 list \<Rightarrow> nat \<Rightarrow> nat \<Rightarrow> uint8 \<Rightarrow> uint8 list" where
  "write_address_bit a byteIndex bitIndex bitValue =
     (if bitValue = 0
      then a[byteIndex := ucast ((ucast (a ! byteIndex) :: 32 word) AND NOT (push_bit bitIndex 1))]
      else a[byteIndex := ucast ((ucast (a ! byteIndex) :: 32 word) OR
                                 push_bit bitIndex (ucast bitValue))])"

definition write_bus_bit :: "'b bus \<Rightarrow> uint8 \<Rightarrow> 'b world \<Rightarrow> 'b world" where
  "write_bus_bit B bitValue w =
     (if bitValue = 0 then snd (DS18B20_write0 B w) else snd (DS18B20_write1 B w))"

text \<open>
  One iteration of the \<^verbatim>\<open>for\<close> loop of \<^verbatim>\<open>searchNext\<close> at \<open>bitPosition\<close>. The result is
  \<open>(continue, world, state, locallast_zero_branch)\<close>; \<open>continue = False\<close> is the
  \<^verbatim>\<open>return false\<close> of the \<^verbatim>\<open>default\<close> case, taken before the address or the bus is
  written at this position. \<^verbatim>\<open>bitValue\<close> is assigned in every other case before it is
  used, so its value from the previous iteration is never read.
\<close>

definition search_bit ::
  "'b bus \<Rightarrow> nat \<Rightarrow> 'b world \<Rightarrow> onewire_search_state \<Rightarrow> int
     \<Rightarrow> bool \<times> 'b world \<times> onewire_search_state \<times> int" where
  "search_bit B bitPosition w state locallast =
     (let byteIndex = bitPosition div 8;
          bitIndex = bitPosition mod 8
      in case DS18B20_read B w of (r1, w1) \<Rightarrow>
         case DS18B20_read B w1 of (r2, w2) \<Rightarrow>
         let DS18B20_reading = (0 OR r1) OR push_bit 1 r2
         in if DS18B20_reading = kZero \<or> DS18B20_reading = kOne then
              let bitValue = DS18B20_reading AND 0x1
              in (True, write_bus_bit B bitValue w2,
                  state\<lparr>address := write_address_bit (address state) byteIndex bitIndex bitValue\<rparr>,
                  locallast)
            else if DS18B20_reading = kConflict then
              let bitValue =
                    (if int bitPosition = last_zero_branch state then 1
                     else if int bitPosition < last_zero_branch state
                       then address state ! byteIndex AND push_bit bitIndex 1
                     else 0);
                  locallast' = (if bitValue = 0 then int bitPosition else locallast)
              in (True, write_bus_bit B bitValue w2,
                  state\<lparr>address := write_address_bit (address state) byteIndex bitIndex bitValue\<rparr>,
                  locallast')
            else (False, w2, state, locallast))"

function search_bits ::
  "'b bus \<Rightarrow> nat \<Rightarrow> 'b world \<Rightarrow> onewire_search_state \<Rightarrow> int
     \<Rightarrow> bool \<times> 'b world \<times> onewire_search_state \<times> int" where
  "search_bits B bitPosition w state locallast =
     (if bitPosition < 64 then
        (case search_bit B bitPosition w state locallast of
           (True, w', state', locallast') \<Rightarrow> search_bits B (bitPosition + 1) w' state' locallast'
         | (False, w', state', locallast') \<Rightarrow> (False, w', state', locallast'))
      else (True, w, state, locallast))"
  by pat_completeness auto
termination
  by (relation "measure (\<lambda>(B, bitPosition, w, state, locallast). 64 - bitPosition)") auto

declare search_bits.simps [simp del]

text \<open>\<^verbatim>\<open>searchNext\<close>: \<^verbatim>\<open>return false\<close> on the fault and \<^verbatim>\<open>return 0\<close> at the end are both 0.\<close>

definition searchNext ::
  "'b bus \<Rightarrow> 'b world \<Rightarrow> onewire_search_state \<Rightarrow> uint8 \<times> 'b world \<times> onewire_search_state" where
  "searchNext B w state =
     (case search_bits B 0 w state (- 1) of
        (False, w', state', locallast) \<Rightarrow> (0, w', state')
      | (True, w', state', locallast) \<Rightarrow>
          (0, w', if locallast = - 1 then state'\<lparr>done_flag := True\<rparr>
                  else state'\<lparr>last_zero_branch := locallast\<rparr>))"

text \<open>\<^verbatim>\<open>searchDevices\<close>: \<^verbatim>\<open>||\<close> does not reset the bus when \<^verbatim>\<open>state->done\<close> is set.\<close>

definition searchDevices ::
  "'b bus \<Rightarrow> 'b world \<Rightarrow> uint8 \<Rightarrow> onewire_search_state
     \<Rightarrow> uint8 \<times> 'b world \<times> onewire_search_state" where
  "searchDevices B w command state =
     (if done_flag state then (1, w, state)
      else case DS18B20_Start B w of (presence, w1) \<Rightarrow>
        if presence = 0 then (1, w1, state)
        else searchNext B (snd (DS18B20_writeData B w1 command)) state)"

section \<open>Full search\<close>

text \<open>
  \<^verbatim>\<open>ROM_codes_array[index] |= search_state.address[i] << 8*(7-i);\<close>
  The left operand of \<^verbatim>\<open><<\<close> is a \<^verbatim>\<open>uint8_t\<close>, promoted to the 32-bit \<^verbatim>\<open>int\<close> of the target,
  and the shift is done at that width; its \<^verbatim>\<open>int\<close> result is then converted to
  \<^verbatim>\<open>uint64_t\<close>, which extends the sign. For a shift count below 32 the result is the
  32-bit two's-complement shift. For the counts 56, 48, 40 and 32 the C standard leaves
  the result undefined; what the target yields there is the parameter \<open>wide\<close>.
\<close>

type_synonym wide_shift = "32 word \<Rightarrow> nat \<Rightarrow> 32 word"

definition shl_int :: "wide_shift \<Rightarrow> uint8 \<Rightarrow> nat \<Rightarrow> 32 word" where
  "shl_int wide a n = (if n < 32 then push_bit n (ucast a) else wide (ucast a) n)"

definition ROM_code_of :: "wide_shift \<Rightarrow> uint8 list \<Rightarrow> uint64" where
  "ROM_code_of wide addr =
     fold (\<lambda>i code. code OR scast (shl_int wide (addr ! i) (8 * (7 - i)))) [0..<8] 0"

text \<open>A Cortex-M register shift: a count of 32 or more gives 0.\<close>

definition arm_shift :: wide_shift where
  "arm_shift x n = 0"

text \<open>
  \<^verbatim>\<open>DS18B20_Search\<close>. The caller's array has no length in C; here it is a list and a
  store at an index outside it ends the run with \<open>OutOfBounds\<close>. \<^verbatim>\<open>index\<close> and \<^verbatim>\<open>count\<close>
  are \<^verbatim>\<open>uint8_t\<close> and wrap. The loop may run forever: \<open>None\<close> is a run that does not
  return. The call of \<^verbatim>\<open>addressValid\<close> only selects a log message and the log macro is
  empty, so it is left out.
\<close>

datatype error = OutOfBounds

partial_function (option) Search_loop ::
  "wide_shift \<Rightarrow> 'b bus \<Rightarrow> 'b world \<Rightarrow> onewire_search_state \<Rightarrow> uint8 \<Rightarrow> uint8 \<Rightarrow> uint64 list
     \<Rightarrow> (error + uint8 \<times> 'b world \<times> uint64 list) option" where
  "Search_loop wide B w search_state index count ROM_codes_array =
     (case searchDevices B w SEARCH_ROM search_state of (r, w', search_state') \<Rightarrow>
        if r \<noteq> 0 then
          (if unat index < length ROM_codes_array then
             Search_loop wide B w' search_state' (index + 1) (count + 1)
               (ROM_codes_array[unat index := ROM_code_of wide (address search_state')])
           else Some (Inl OutOfBounds))
        else Some (Inr (0, w', ROM_codes_array)))"

definition uninitialised :: onewire_search_state where
  "uninitialised = \<lparr>last_zero_branch = 0, done_flag = False, address = replicate 8 0\<rparr>"

definition DS18B20_Search ::
  "wide_shift \<Rightarrow> 'b bus \<Rightarrow> 'b world \<Rightarrow> uint64 list
     \<Rightarrow> (error + uint8 \<times> 'b world \<times> uint64 list) option" where
  "DS18B20_Search wide B w ROM_codes_array =
     Search_loop wide B w (snd (onewireSearchInit uninitialised)) 0 0 ROM_codes_array"

section \<open>Reading the temperatures\<close>

text \<open>\<^verbatim>\<open>ROM_code_byte = ( ROM_codes_array[count] >> 8*(7-i) ) & 0xFF;\<close> then \<^verbatim>\<open>writeData\<close>.\<close>

definition send_ROM_code :: "'b bus \<Rightarrow> uint64 \<Rightarrow> 'b world \<Rightarrow> 'b world" where
  "send_ROM_code B code w =
     fold (\<lambda>i w. snd (DS18B20_writeData B w (ucast (drop_bit (8 * (7 - i)) code AND 0xFF))))
       [0..<8] w"

text \<open>
  \<^verbatim>\<open>uint16_t Temperature = (((Temperature_byte_2 << 8)) | Temperature_byte_1) >> 4;\<close>
  Both bytes are promoted to \<^verbatim>\<open>int\<close>; the value shifted right is between 0 and 65535.
\<close>

definition Temperature_of :: "uint8 \<Rightarrow> uint8 \<Rightarrow> uint16" where
  "Temperature_of Temperature_byte_1 Temperature_byte_2 =
     ucast (drop_bit 4 (push_bit 8 (ucast Temperature_byte_2 :: 32 word) OR
                        ucast Temperature_byte_1))"

text \<open>The bus transactions of one iteration of the loop of \<^verbatim>\<open>DS18B20_GetTemp\<close>, up to the
  two data bytes. The return value of \<^verbatim>\<open>DS18B20_Start\<close> is discarded.\<close>

definition read_scratchpad :: "'b bus \<Rightarrow> 'b world \<Rightarrow> uint64 \<Rightarrow> (uint8 \<times> uint8) \<times> 'b world" where
  "read_scratchpad B w code =
     (let w1 = snd (DS18B20_Start B w);
          w2 = snd (DS18B20_writeData B w1 MATCH_ROM);
          w3 = send_ROM_code B code w2;
          w4 = snd (DS18B20_writeData B w3 CONVERT_T);
          w5 = snd (DS18B20_Start B w4);
          w6 = snd (DS18B20_writeData B w5 MATCH_ROM);
          w7 = send_ROM_code B code w6;
          w8 = snd (DS18B20_writeData B w7 READ_SCRATCHPAD)
      in case DS18B20_readByte B w8 of (Temperature_byte_1, w9) \<Rightarrow>
         case DS18B20_readByte B w9 of (Temperature_byte_2, w10) \<Rightarrow>
           ((Temperature_byte_1, Temperature_byte_2), w10))"

text \<open>\<^verbatim>\<open>DS18B20_GetTemp\<close>: a read of \<^verbatim>\<open>ROM_codes_array\<close> or a store to \<^verbatim>\<open>temperature\<close> outside
  the list ends the run with \<open>OutOfBounds\<close>; \<^verbatim>\<open>count\<close> is a \<^verbatim>\<open>uint8_t\<close> and wraps.\<close>

partial_function (option) GetTemp_loop ::
  "'b bus \<Rightarrow> 'b world \<Rightarrow> uint8 \<Rightarrow> uint64 list \<Rightarrow> uint16 list
     \<Rightarrow> (error + uint8 \<times> 'b world \<times> uint16 list) option" where
  "GetTemp_loop B w count ROM_codes_array temperature =
     (if unat count < length ROM_codes_array then
        (if ROM_codes_array ! unat count \<noteq> 0 then
           (case read_scratchpad B w (ROM_codes_array ! unat count) of
              ((Temperature_byte_1, Temperature_byte_2), w') \<Rightarrow>
                if unat count < length temperature then
                  GetTemp_loop B w' (count + 1) ROM_codes_array
                    (temperature[unat count := Temperature_of Temperature_byte_1 Temperature_byte_2])
                else Some (Inl OutOfBounds))
         else Some (Inr (0, w, temperature)))
      else Some (Inl OutOfBounds))"

definition DS18B20_GetTemp ::
  "'b bus \<Rightarrow> 'b world \<Rightarrow> uint64 list \<Rightarrow> uint16 list
     \<Rightarrow> (error + uint8 \<times> 'b world \<times> uint16 list) option" where
  "DS18B20_GetTemp B w ROM_codes_array temperature = GetTemp_loop B w 0 ROM_codes_array temperature"

section \<open>Two buses\<close>

subsection \<open>A simulated bus with devices\<close>

text \<open>
  The devices of a simulated bus follow the 1-Wire search protocol. A device is its
  64-bit ROM in wire order: bit \<open>p\<close> of the word is the \<open>p\<close>-th bit it transmits, so the
  low byte is the family code and the high byte the CRC. After a reset every device
  answers with a presence pulse and collects the eight bits of a ROM command. After
  SEARCH_ROM, each device still taking part sends its bit at the current position in
  the first read slot and the complement in the second; the line is a wired AND, low
  as soon as one device sends 0. In the write slot that follows, the devices whose bit
  differs from the bit written drop out until the next reset. Past position 63 nothing
  drives the line.
\<close>

datatype sim_mode = SimIdle | SimCommand "bool list" | SimSearch nat nat "uint64 list"

record sim_state =
  sim_devices :: "uint64 list"
  sim_mode :: sim_mode

definition sim_reset :: "sim_state \<Rightarrow> bool \<times> sim_state" where
  "sim_reset s = (sim_devices s = [], s\<lparr>sim_mode := SimCommand []\<rparr>)"

definition sim_read :: "sim_state \<Rightarrow> bool \<times> sim_state" where
  "sim_read s =
     (case sim_mode s of
        SimSearch pos phase active \<Rightarrow>
          if pos < 64 \<and> phase = 0 then
            (list_all (\<lambda>d. bit d pos) active, s\<lparr>sim_mode := SimSearch pos 1 active\<rparr>)
          else if pos < 64 \<and> phase = 1 then
            (list_all (\<lambda>d. \<not> bit d pos) active, s\<lparr>sim_mode := SimSearch pos 2 active\<rparr>)
          else (True, s\<lparr>sim_mode := SimIdle\<rparr>)
      | _ \<Rightarrow> (True, s))"

definition sim_write :: "bool \<Rightarrow> sim_state \<Rightarrow> sim_state" where
  "sim_write b s =
     (case sim_mode s of
        SimIdle \<Rightarrow> s
      | SimCommand bits \<Rightarrow>
          if length bits < 7 then s\<lparr>sim_mode := SimCommand (bits @ [b])\<rparr>
          else if bits @ [b] = map (bit SEARCH_ROM) [0..<8]
            then s\<lparr>sim_mode := SimSearch 0 0 (sim_devices s)\<rparr>
          else s\<lparr>sim_mode := SimIdle\<rparr>
      | SimSearch pos phase active \<Rightarrow>
          if phase = 2
            then s\<lparr>sim_mode := SimSearch (pos + 1) 0 (filter (\<lambda>d. bit d pos = b) active)\<rparr>
          else s\<lparr>sim_mode := SimIdle\<rparr>)"

definition sim_bus :: "sim_state bus" where
  "sim_bus = \<lparr>reset_sample = sim_reset, read_sample = sim_read, write_slot = sim_write\<rparr>"

definition sim_world :: "uint64 list \<Rightarrow> sim_state world" where
  "sim_world ds = (\<lparr>sim_devices = ds, sim_mode = SimIdle\<rparr>, [])"

text \<open>The eight address bytes of a device, as \<^verbatim>\<open>searchNext\<close> assembles them.\<close>

definition rom_bytes :: "uint64 \<Rightarrow> uint8 list" where
  "rom_bytes d = map (\<lambda>i. ucast (drop_bit (8 * i) d)) [0..<8]"

subsection \<open>A scripted bus\<close>

text \<open>
  A bus whose sampled levels are fixed in advance, one per reset or read slot, whatever
  the driver writes; once the script is used up the line stays high. It stands for
  any hardware behaviour, faults included.
\<close>

definition script_sample :: "bool list \<Rightarrow> bool \<times> bool list" where
  "script_sample s = (case s of [] \<Rightarrow> (True, []) | level # rest \<Rightarrow> (level, rest))"

definition script_bus :: "bool list bus" where
  "script_bus = \<lparr>reset_sample = script_sample, read_sample = script_sample,
                 write_slot = (\<lambda>b s. s)\<rparr>"



section \<open>Running search cycles\<close>

text \<open>
  A caller that threads one search state through \<open>n\<close> calls of \<^verbatim>\<open>searchDevices\<close>, as
  the loop of \<^verbatim>\<open>DS18B20_Search\<close> does. Each entry is the return value of a call and the
  state it leaves; \<open>cycle_view\<close> shows the return value, the address and the done flag.
\<close>

fun search_cycles ::
  "nat \<Rightarrow> 'b bus \<Rightarrow> 'b world \<Rightarrow> uint8 \<Rightarrow> onewire_search_state
     \<Rightarrow> (uint8 \<times> onewire_search_state) list" where
  "search_cycles 0 B w command state = []"
| "search_cycles (Suc n) B w command state =
     (case searchDevices B w command state of
        (r, w', state') \<Rightarrow> (r, state') # search_cycles n B w' command state')"

definition cycle_view :: "uint8 \<times> onewire_search_state \<Rightarrow> uint8 \<times> uint8 list \<times> bool" where
  "cycle_view c = (fst c, address (snd c), done_flag (snd c))"

text \<open>The number an address stands for when byte 0 is the most significant byte.\<close>

definition msb_first_value :: "uint8 list \<Rightarrow> nat" where
  "msb_first_value a = foldl (\<lambda>v b. 256 * v + unat b) 0 a"

section \<open>The order of discovery\<close>

text \<open>
  \<open>agree p d e\<close>: the ROMs \<open>d\<close> and \<open>e\<close> have the same bits at the wire positions below
  \<open>p\<close>. \<open>wire_less d e\<close>: at the first wire position where \<open>d\<close> and \<open>e\<close> differ, \<open>d\<close> has
  0 and \<open>e\<close> has 1. Wire position 0 is the least significant bit of the family code, so
  this is the numeric order of the bit-reversed ROMs. \<open>wire_sort\<close> sorts by insertion.
\<close>

definition agree :: "nat \<Rightarrow> uint64 \<Rightarrow> uint64 \<Rightarrow> bool" where
  "agree p d e \<longleftrightarrow> take_bit p d = take_bit p e"

definition wire_less :: "uint64 \<Rightarrow> uint64 \<Rightarrow> bool" where
  "wire_less d e \<longleftrightarrow> (\<exists>q\<in>{0..<64}. agree q d e \<and> \<not> bit d q \<and> bit e q)"

fun wire_insert :: "uint64 \<Rightarrow> uint64 list \<Rightarrow> uint64 list" where
  "wire_insert d [] = [d]"
| "wire_insert d (e # es) = (if wire_less d e then d # e # es else e # wire_insert d es)"

definition wire_sort :: "uint64 list \<Rightarrow> uint64 list" where
  "wire_sort ds = foldr wire_insert ds []"

text \<open>
  \<open>branch ds y q\<close>: on the path of device \<open>y\<close>, position \<open>q\<close> reads as a conflict, since
  some device with the same bits below \<open>q\<close> has the other bit at \<open>q\<close>. It is a
  \<open>zero_branch\<close> when \<open>y\<close> itself has 0 there.
\<close>

definition branch :: "uint64 list \<Rightarrow> uint64 \<Rightarrow> nat \<Rightarrow> bool" where
  "branch ds y q \<longleftrightarrow> (\<exists>d\<in>set ds. agree q d y \<and> bit d q \<noteq> bit y q)"

definition zero_branch :: "uint64 list \<Rightarrow> uint64 \<Rightarrow> nat \<Rightarrow> bool" where
  "zero_branch ds y q \<longleftrightarrow> \<not> bit y q \<and> branch ds y q"

text \<open>
  In the replay branch \<^verbatim>\<open>searchNext\<close> keeps the masked byte in \<^verbatim>\<open>bitValue\<close> and then ORs
  \<^verbatim>\<open>bitValue << bitIndex\<close> into the address byte: replaying a 1 at bit \<open>k\<close> of a byte
  also sets bit \<open>2k\<close> of that byte. This is visible only when bit \<open>2k\<close> is replayed in
  the same cycle while the previous address holds 0 there. \<open>replay_hazard ds\<close> says that
  the bus has a device \<open>x\<close> with such a pair of branch positions \<open>p\<close> and \<open>q\<close> in one
  byte, and a zero branch \<open>r\<close> above them, so that both are replayed in the cycle
  after \<open>x\<close>.
\<close>

definition replay_hazard :: "uint64 list \<Rightarrow> bool" where
  "replay_hazard ds \<longleftrightarrow>
     (\<exists>x\<in>set ds. \<exists>p\<in>{0..<64}. \<exists>q\<in>{0..<64}. \<exists>r\<in>{0..<64}.
        q div 8 = p div 8 \<and> q mod 8 = 2 * (p mod 8) \<and> 0 < p mod 8 \<and> q < r \<and>
        bit x p \<and> branch ds x p \<and> zero_branch ds x q \<and> zero_branch ds x r)"

section \<open>Notions used in the proofs\<close>

text \<open>The value \<^verbatim>\<open>bitValue\<close> takes in the conflict case, and a bit of the address array.\<close>

definition conflict_choice :: "onewire_search_state \<Rightarrow> nat \<Rightarrow> uint8" where
  "conflict_choice state bitPosition =
     (if int bitPosition = last_zero_branch state then 1
      else if int bitPosition < last_zero_branch state
        then address state ! (bitPosition div 8) AND push_bit (bitPosition mod 8) 1
      else 0)"

definition addr_bit :: "uint8 list \<Rightarrow> nat \<Rightarrow> bool" where
  "addr_bit a p = bit (a ! (p div 8)) (p mod 8)"

text \<open>
  The loop invariant of a cycle on the simulated bus that is heading for device \<open>y\<close>,
  before position \<open>p\<close>: the devices still taking part are those that agree with \<open>y\<close>
  below \<open>p\<close>; the address holds the bits of \<open>y\<close> below \<open>p\<close>, and at the branch
  positions from \<open>p\<close> up to the last zero branch \<open>L\<close> of the previous cycle.
\<close>

definition search_inv ::
  "uint64 list \<Rightarrow> uint64 \<Rightarrow> int \<Rightarrow> nat \<Rightarrow> sim_state world \<Rightarrow> onewire_search_state \<Rightarrow> bool" where
  "search_inv ds y L p w st \<longleftrightarrow>
     fst w = \<lparr>sim_devices = ds, sim_mode = SimSearch p 0 (filter (\<lambda>d. agree p d y) ds)\<rparr> \<and>
     length (address st) = 8 \<and> last_zero_branch st = L \<and>
     (\<forall>q<p. addr_bit (address st) q = bit y q) \<and>
     (\<forall>q. p \<le> q \<and> int q < L \<and> branch ds y q \<longrightarrow> addr_bit (address st) q = bit y q)"

text \<open>\<open>target ds L y\<close>: the choices of a cycle that starts with \<^verbatim>\<open>last_zero_branch = L\<close>
  lead to \<open>y\<close>: 1 at a branch at \<open>L\<close>, 0 at every branch above \<open>L\<close>.\<close>

definition target :: "uint64 list \<Rightarrow> int \<Rightarrow> uint64 \<Rightarrow> bool" where
  "target ds L y \<longleftrightarrow>
     y \<in> set ds \<and>
     (\<forall>q. branch ds y q \<longrightarrow> (int q = L \<longrightarrow> bit y q) \<and> (L < int q \<longrightarrow> \<not> bit y q))"

definition no_hazard :: "uint64 list \<Rightarrow> int \<Rightarrow> uint64 \<Rightarrow> bool" where
  "no_hazard ds L y \<longleftrightarrow>
     (\<forall>p q. int q < L \<and> q div 8 = p div 8 \<and> q mod 8 = 2 * (p mod 8) \<and> 0 < p mod 8 \<and>
            bit y p \<and> branch ds y p \<and> branch ds y q \<longrightarrow> bit y q)"

text \<open>The value of \<^verbatim>\<open>locallast_zero_branch\<close> after the positions from \<open>p\<close> on.\<close>

definition last_zero :: "uint64 list \<Rightarrow> uint64 \<Rightarrow> nat \<Rightarrow> int \<Rightarrow> int" where
  "last_zero ds y p l = fold (\<lambda>q l. if zero_branch ds y q then int q else l) [p..<64] l"

text \<open>The state between two cycles, after device \<open>x\<close> has been discovered.\<close>

definition discovered :: "uint64 list \<Rightarrow> uint64 \<Rightarrow> onewire_search_state \<Rightarrow> bool" where
  "discovered ds x st \<longleftrightarrow>
     x \<in> set ds \<and> address st = rom_bytes x \<and>
     (if \<exists>d\<in>set ds. wire_less x d
      then \<not> done_flag st \<and>
           (\<exists>m. last_zero_branch st = int m \<and> zero_branch ds x m \<and>
                (\<forall>q. zero_branch ds x q \<longrightarrow> q \<le> m))
      else done_flag st)"

definition successor :: "uint64 list \<Rightarrow> uint64 \<Rightarrow> uint64 \<Rightarrow> bool" where
  "successor ds x y \<longleftrightarrow>
     y \<in> set ds \<and> wire_less x y \<and> (\<forall>d\<in>set ds. wire_less x d \<longrightarrow> d = y \<or> wire_less y d)"

definition least :: "uint64 list \<Rightarrow> uint64 \<Rightarrow> bool" where
  "least ds y \<longleftrightarrow> y \<in> set ds \<and> (\<forall>d\<in>set ds. d = y \<or> wire_less y d)"

text \<open>The result of a run without the world: the error, or the value returned and the
  caller's array.\<close>

definition outcome :: "(error + uint8 \<times> 'b world \<times> 'a) option \<Rightarrow> (error + uint8 \<times> 'a) option" where
  "outcome r = map_option (map_sum id (\<lambda>(ret, w, out). (ret, out))) r"

text \<open>
  A bus of four devices, given by their ROMs in wire order. Their low address bytes are
  0x00, 0x02, 0x0A and 0x06; every other ROM byte is 0.
\<close>

abbreviation (input) bus4 :: "uint64 list" where
  "bus4 \<equiv> [0, 2, 10, 6]"

text \<open>The bits written to the bus in a stretch of the trace, in order.\<close>

definition written_bits :: "bus_event list \<Rightarrow> bool list" where
  "written_bits tr = concat (map (\<lambda>e. case e of EvWrite b \<Rightarrow> [b] | _ \<Rightarrow> []) tr)"

section \<open>CRC-8: the table against the bit-by-bit algorithm\<close>

text \<open>
  One data bit moves the register and the rest of the data byte together: the XOR of
  the two after a step is one shift step applied to their XOR before it. After eight
  steps the data byte is used up, so a byte step is eight shift steps of
  \<open>crc XOR byte\<close>, which is the index the table is read at.
\<close>

lemma crc8_bit_linear:
  "crc8_bit c (bit x 0) XOR drop_bit 1 x = crc8_shift (c XOR x)"
  by (rule bit_word_eqI) (auto simp add: crc8_bit_def crc8_shift_def bit_simps)

lemma crc8_bits_invariant:
  "fold (\<lambda>i c. crc8_bit c (bit byte i)) [0..<k] crc XOR drop_bit k byte
     = (crc8_shift ^^ k) (crc XOR byte)"
proof (induction k)
  case 0
  show ?case by simp
next
  case (Suc k)
  have "fold (\<lambda>i c. crc8_bit c (bit byte i)) [0..<Suc k] crc XOR drop_bit (Suc k) byte
      = crc8_bit (fold (\<lambda>i c. crc8_bit c (bit byte i)) [0..<k] crc) (bit (drop_bit k byte) 0)
          XOR drop_bit 1 (drop_bit k byte)"
    by (simp add: bit_simps)
  also have "\<dots> = crc8_shift (fold (\<lambda>i c. crc8_bit c (bit byte i)) [0..<k] crc XOR drop_bit k byte)"
    by (rule crc8_bit_linear)
  finally show ?case using Suc.IH by simp
qed

lemma crc8_byte_bitwise_shift:
  "crc8_byte_bitwise crc byte = (crc8_shift ^^ 8) (crc XOR byte)"
proof -
  have "drop_bit 8 byte = 0" by (rule bit_word_eqI) (simp add: bit_simps)
  with crc8_bits_invariant [of byte 8 crc] show ?thesis
    by (simp add: crc8_byte_bitwise_def)
qed

text \<open>The shift step on the unsigned value of the register; the table is checked there.\<close>

lemma unat_crc8_shift: "unat (crc8_shift y) = crc8_shift_nat (unat y)"
proof -
  have "bit y 0 \<longleftrightarrow> odd (unat y)"
    using bit_unsigned_iff [of y 0, where ?'a = nat] by (simp add: bit_0)
  moreover have d: "unat (drop_bit 1 y) = unat y div 2"
    using unat_drop_bit_eq [of 1 y] by (simp only: drop_bit_eq_div power_one_right)
  moreover have "unat (drop_bit 1 y XOR 0x8C) = (unat y div 2) XOR 140"
    by (simp only: unsigned_xor_eq d) simp
  ultimately show ?thesis by (simp add: crc8_shift_def crc8_shift_nat_def)
qed

lemma unat_crc8_shift8: "unat ((crc8_shift ^^ 8) y) = crc8_shift8_nat (unat y)"
  by (simp add: eval_nat_numeral unat_crc8_shift crc8_shift8_nat_def)

lemma upt_256_split: "[0..<256] = 0 # 1 # [2..<256]"
  by (simp add: upt_rec)

lemma crc8_table_check:
  "map crc8_shift8_nat [0..<256] = map unat crc8_table"
  unfolding upt_256_split
  by (simp add: upt_rec_numeral crc8_shift8_nat_def crc8_shift_nat_def crc8_table_def)

lemma crc8_table_nth: "crc8_table ! unat y = (crc8_shift ^^ 8) y"
proof -
  have lt: "unat y < 256" using unsigned_less [of y, where 'a = nat] by simp
  have len: "length crc8_table = 256"
    using arg_cong [OF crc8_table_check, of length] by simp
  have "map unat crc8_table ! unat y = map crc8_shift8_nat [0..<256] ! unat y"
    by (simp only: crc8_table_check)
  then have "unat (crc8_table ! unat y) = crc8_shift8_nat (unat y)"
    using lt len by simp
  then show ?thesis by (simp add: word_unat_eq_iff unat_crc8_shift8)
qed

lemma crcGenerator_bitwise: "crcGenerator c b = crc8_byte_bitwise c b"
  by (simp add: crcGenerator_def crc8_table_nth crc8_byte_bitwise_shift xor.commute)

lemma computed_crc_bitwise:
  "computed_crc [b0, b1, b2, b3, b4, b5, b6, b7] = crc8_bitwise [b0, b1, b2, b3, b4, b5, b6]"
  by (simp add: computed_crc_def crc8_bitwise_def crcGenerator_bitwise eval_nat_numeral upt_rec)

text \<open>
  C7. For each of the 256 byte values \<open>b\<close>, the table step \<open>crcGenerator 0 b\<close> is the
  bit-by-bit Dallas/Maxim CRC-8 of the single byte \<open>b\<close> from the initial value 0; and the
  CRC that \<^verbatim>\<open>addressValid\<close> folds over bytes 0 to 6 of any 8-byte ROM code is the
  bit-by-bit CRC-8 of those seven bytes.
\<close>

theorem crcGenerator_refines_bitwise:
  "(\<forall>b. crcGenerator 0 b = crc8_byte_bitwise 0 b) \<and>
   (\<forall>b0 b1 b2 b3 b4 b5 b6 b7.
      computed_crc [b0, b1, b2, b3, b4, b5, b6, b7] = crc8_bitwise [b0, b1, b2, b3, b4, b5, b6])"
  by (simp add: crcGenerator_bitwise computed_crc_bitwise)


section \<open>The search on the simulated bus\<close>

lemma write_address_bit_zero:
  "write_address_bit a byteIndex bitIndex 0 = a[byteIndex := a ! byteIndex AND NOT (push_bit bitIndex 1)]"
  unfolding write_address_bit_def
  by (simp, intro arg_cong [where f = "list_update a byteIndex"] bit_word_eqI) (auto simp add: bit_simps)

lemma write_address_bit_nonzero:
  "v \<noteq> 0 \<Longrightarrow> write_address_bit a byteIndex bitIndex v = a[byteIndex := a ! byteIndex OR push_bit bitIndex v]"
  unfolding write_address_bit_def
  by (simp, intro arg_cong [where f = "list_update a byteIndex"] bit_word_eqI) (auto simp add: bit_simps)

lemma search_bit_fault:
  assumes "read_sample B (fst w) = (True, e1)" and "read_sample B e1 = (True, e2)"
  shows "search_bit B p w st l = (False, (e2, snd w @ [EvRead True, EvRead True]), st, l)"
  using assms by (simp add: search_bit_def DS18B20_read_def kZero_def kOne_def kConflict_def)

lemma search_bit_zero:
  assumes "read_sample B (fst w) = (False, e1)" and "read_sample B e1 = (True, e2)"
  shows "search_bit B p w st l =
     (True, (write_slot B False e2, snd w @ [EvRead False, EvRead True, EvWrite False]),
      st\<lparr>address := write_address_bit (address st) (p div 8) (p mod 8) 0\<rparr>, l)"
  using assms
  by (simp add: search_bit_def DS18B20_read_def kZero_def kOne_def kConflict_def
      write_bus_bit_def DS18B20_write0_def)

lemma search_bit_one:
  assumes "read_sample B (fst w) = (True, e1)" and "read_sample B e1 = (False, e2)"
  shows "search_bit B p w st l =
     (True, (write_slot B True e2, snd w @ [EvRead True, EvRead False, EvWrite True]),
      st\<lparr>address := write_address_bit (address st) (p div 8) (p mod 8) 1\<rparr>, l)"
  using assms
  by (simp add: search_bit_def DS18B20_read_def kZero_def kOne_def kConflict_def
      write_bus_bit_def DS18B20_write1_def)

lemma search_bit_conflict:
  assumes "read_sample B (fst w) = (False, e1)" and "read_sample B e1 = (False, e2)"
  shows "search_bit B p w st l =
     (True, (write_slot B (conflict_choice st p \<noteq> 0) e2,
             snd w @ [EvRead False, EvRead False, EvWrite (conflict_choice st p \<noteq> 0)]),
      st\<lparr>address := write_address_bit (address st) (p div 8) (p mod 8) (conflict_choice st p)\<rparr>,
      if conflict_choice st p = 0 then int p else l)"
  using assms
  by (simp add: search_bit_def DS18B20_read_def kZero_def kOne_def kConflict_def
      write_bus_bit_def DS18B20_write1_def DS18B20_write0_def conflict_choice_def Let_def)

lemma search_bits_step:
  "p < 64 \<Longrightarrow> search_bit B p w st l = (True, w', st', l')
     \<Longrightarrow> search_bits B p w st l = search_bits B (Suc p) w' st' l'"
  by (subst search_bits.simps) simp

lemma search_bits_stop:
  "p < 64 \<Longrightarrow> search_bit B p w st l = (False, w', st', l')
     \<Longrightarrow> search_bits B p w st l = (False, w', st', l')"
  by (subst search_bits.simps) simp

lemma search_bits_end: "search_bits B 64 w st l = (True, w, st, l)"
  by (subst search_bits.simps) simp

lemma length_write_address_bit [simp]:
  "length (write_address_bit a i k v) = length a"
  by (simp add: write_address_bit_def)

lemma pos_eq_iff: "(q::nat) = p \<longleftrightarrow> q div 8 = p div 8 \<and> q mod 8 = p mod 8"
  by (metis div_mult_mod_eq)

lemma addr_bit_write_zero:
  assumes "length a = 8" "p < 64" "q < 64"
  shows "addr_bit (write_address_bit a (p div 8) (p mod 8) 0) q \<longleftrightarrow> q \<noteq> p \<and> addr_bit a q"
proof (cases "q div 8 = p div 8")
  case True
  have i: "p div 8 < length a" using assms by simp
  have e: "q = p \<longleftrightarrow> q mod 8 = p mod 8" using True pos_eq_iff [of q p] by simp
  show ?thesis using i True
    by (auto simp add: write_address_bit_zero addr_bit_def e bit_simps)
next
  case False
  then have "q \<noteq> p" by auto
  with False show ?thesis
    by (simp add: write_address_bit_zero addr_bit_def)
qed

lemma addr_bit_write_one:
  assumes "length a = 8" "p < 64" "q < 64"
  shows "addr_bit (write_address_bit a (p div 8) (p mod 8) 1) q \<longleftrightarrow> q = p \<or> addr_bit a q"
proof (cases "q div 8 = p div 8")
  case True
  have i: "p div 8 < length a" using assms by simp
  have e: "q = p \<longleftrightarrow> q mod 8 = p mod 8" using True pos_eq_iff [of q p] by simp
  show ?thesis using i True
    by (auto simp add: write_address_bit_nonzero addr_bit_def e bit_simps)
next
  case False
  then have "q \<noteq> p" by auto
  with False show ?thesis
    by (simp add: write_address_bit_nonzero addr_bit_def)
qed

lemma replay_value_nonzero:
  "a ! (p div 8) AND push_bit (p mod 8) 1 \<noteq> (0::uint8) \<longleftrightarrow> addr_bit a p"
  by (simp add: addr_bit_def and_exp_eq_0_iff_not_bit)

lemma addr_bit_write_replay:
  assumes "length a = 8" "p < 64" "q < 64" "addr_bit a p"
  shows "addr_bit (write_address_bit a (p div 8) (p mod 8) (a ! (p div 8) AND push_bit (p mod 8) 1)) q
     \<longleftrightarrow> addr_bit a q \<or> (q div 8 = p div 8 \<and> q mod 8 = 2 * (p mod 8))"
proof (cases "q div 8 = p div 8")
  case True
  have i: "p div 8 < length a" using assms by simp
  have nz: "a ! (p div 8) AND push_bit (p mod 8) 1 \<noteq> 0"
    using assms(4) replay_value_nonzero [of a p] by blast
  have b: "bit (a ! (p div 8)) (p mod 8)" using assms(4) by (simp add: addr_bit_def)
  have "q mod 8 < 8" by simp
  show ?thesis
    unfolding write_address_bit_nonzero [OF nz] addr_bit_def True
    using i b \<open>q mod 8 < 8\<close> by (auto simp add: bit_simps)
next
  case False
  have nz: "a ! (p div 8) AND push_bit (p mod 8) 1 \<noteq> 0"
    using assms(4) replay_value_nonzero [of a p] by blast
  from False show ?thesis
    unfolding write_address_bit_nonzero [OF nz] addr_bit_def by simp
qed

lemma wire_less_iff: "wire_less d e \<longleftrightarrow> (\<exists>q<64. agree q d e \<and> \<not> bit d q \<and> bit e q)"
  by (auto simp add: wire_less_def)

lemma agree_iff: "agree p d e \<longleftrightarrow> (\<forall>q<p. bit d q = bit e q)"
proof
  assume "agree p d e"
  then have "bit (take_bit p d) q = bit (take_bit p e) q" for q
    by (simp add: agree_def)
  then show "\<forall>q<p. bit d q = bit e q"
    unfolding bit_take_bit_iff by blast
next
  assume "\<forall>q<p. bit d q = bit e q"
  then have "take_bit p d = take_bit p e"
    by (intro bit_word_eqI) (auto simp add: bit_take_bit_iff)
  then show "agree p d e" by (simp add: agree_def)
qed

lemma agree_refl [simp]: "agree p d d"
  by (simp add: agree_def)

lemma agree_sym: "agree p d e \<Longrightarrow> agree p e d"
  by (simp add: agree_def)

lemma agree_trans: "agree p d e \<Longrightarrow> agree p e f \<Longrightarrow> agree p d f"
  by (simp add: agree_def)

lemma agree_0 [simp]: "agree 0 d e"
  by (simp add: agree_def)

lemma agree_Suc: "agree (Suc p) d e \<longleftrightarrow> agree p d e \<and> bit d p = bit e p"
  by (auto simp add: agree_iff less_Suc_eq)

lemma agree_mono: "agree p d e \<Longrightarrow> q \<le> p \<Longrightarrow> agree q d e"
  by (simp add: agree_iff)

lemma agree_bit: "agree p d e \<Longrightarrow> q < p \<Longrightarrow> bit d q = bit e q"
  by (simp add: agree_iff)

lemma agree_64: "agree 64 d e \<longleftrightarrow> d = e"
  by (auto simp add: agree_iff intro: bit_word_eqI)

lemma first_difference:
  assumes "d \<noteq> e"
  shows "\<exists>q<64. agree q d e \<and> bit d q \<noteq> bit e q"
proof -
  from assms have "\<exists>q. bit d q \<noteq> bit e q" by (auto simp add: bit_eq_iff)
  define q where "q = (LEAST q. bit d q \<noteq> bit e q)"
  have q: "bit d q \<noteq> bit e q"
    unfolding q_def using \<open>\<exists>q. bit d q \<noteq> bit e q\<close> by (rule LeastI_ex)
  have least: "bit d r = bit e r" if "r < q" for r
    using not_less_Least [of r "\<lambda>q. bit d q \<noteq> bit e q"] that unfolding q_def by blast
  from q have "q < 64" using bit_imp_le_length [of d q] bit_imp_le_length [of e q]
    by (cases "bit d q") auto
  with q least show ?thesis by (auto simp add: agree_iff)
qed

lemma difference_unique:
  assumes "agree q d e" "bit d q \<noteq> bit e q" "agree r d e" "bit d r \<noteq> bit e r"
  shows "q = r"
  using assms by (metis agree_bit linorder_neqE_nat)

lemma wire_less_irrefl [simp]: "\<not> wire_less d d"
  by (simp add: wire_less_iff)

lemma wire_less_asym: "wire_less d e \<Longrightarrow> \<not> wire_less e d"
  unfolding wire_less_iff by (metis agree_sym difference_unique)

lemma wire_less_total: "d \<noteq> e \<Longrightarrow> wire_less d e \<or> wire_less e d"
  using first_difference [of d e] unfolding wire_less_iff by (metis agree_sym)

lemma wire_less_trans:
  assumes "wire_less a b" "wire_less b c"
  shows "wire_less a c"
proof -
  from assms obtain q r where
    q: "q < 64" "agree q a b" "\<not> bit a q" "bit b q" and
    r: "r < 64" "agree r b c" "\<not> bit b r" "bit c r"
    by (auto simp add: wire_less_iff)
  from q r have "q \<noteq> r" by auto
  then consider "q < r" | "r < q" by arith
  then show ?thesis
  proof cases
    case 1
    then have "agree q b c" "bit c q" using r(2) q(4) agree_mono agree_bit
      by (metis less_imp_le_nat)+
    with q show ?thesis unfolding wire_less_iff using agree_trans by blast
  next
    case 2
    then have "agree r a b" "\<not> bit a r" using q(2) r(3) agree_mono agree_bit
      by (metis less_imp_le_nat)+
    with r show ?thesis unfolding wire_less_iff using agree_trans by blast
  qed
qed

lemma branch_less_64: "branch ds y q \<Longrightarrow> q < 64"
  unfolding branch_def using bit_imp_le_length [of _ q, where ?'a = 64]
  by (metis len_bit0 len_num1 mult_2 numeral_Bit0 one_add_one)

lemma sim_read_bit:
  "p < 64 \<Longrightarrow> read_sample sim_bus \<lparr>sim_devices = ds, sim_mode = SimSearch p 0 act\<rparr>
     = (list_all (\<lambda>d. bit d p) act, \<lparr>sim_devices = ds, sim_mode = SimSearch p 1 act\<rparr>)"
  by (simp add: sim_bus_def sim_read_def)

lemma sim_read_complement:
  "p < 64 \<Longrightarrow> read_sample sim_bus \<lparr>sim_devices = ds, sim_mode = SimSearch p 1 act\<rparr>
     = (list_all (\<lambda>d. \<not> bit d p) act, \<lparr>sim_devices = ds, sim_mode = SimSearch p 2 act\<rparr>)"
  by (simp add: sim_bus_def sim_read_def)

lemma sim_write_search:
  "write_slot sim_bus b \<lparr>sim_devices = ds, sim_mode = SimSearch p 2 act\<rparr>
     = \<lparr>sim_devices = ds, sim_mode = SimSearch (Suc p) 0 (filter (\<lambda>d. bit d p = b) act)\<rparr>"
  by (simp add: sim_bus_def sim_write_def)

lemma active_all_one:
  "y \<in> set ds \<Longrightarrow>
   list_all (\<lambda>d. bit d p) (filter (\<lambda>d. agree p d y) ds) \<longleftrightarrow> bit y p \<and> \<not> branch ds y p"
  by (auto simp add: list_all_iff branch_def)

lemma active_all_zero:
  "y \<in> set ds \<Longrightarrow>
   list_all (\<lambda>d. \<not> bit d p) (filter (\<lambda>d. agree p d y) ds) \<longleftrightarrow> \<not> bit y p \<and> \<not> branch ds y p"
  by (auto simp add: list_all_iff branch_def)

lemma active_step:
  "filter (\<lambda>d. bit d p = bit y p) (filter (\<lambda>d. agree p d y) ds) = filter (\<lambda>d. agree (Suc p) d y) ds"
  by (simp add: agree_Suc conj_commute)

lemma same_byte_double:
  assumes "q div 8 = p div 8" "q mod 8 = 2 * (p mod 8)" "q \<noteq> (p::nat)"
  shows "p < q \<and> 0 < p mod 8"
proof -
  have "0 < p mod 8" using assms pos_eq_iff [of q p] by (cases "p mod 8 = 0") auto
  moreover have "q = 8 * (q div 8) + q mod 8" "p = 8 * (p div 8) + p mod 8" by simp_all
  ultimately show ?thesis using assms by linarith
qed

lemma inv_after_write:
  assumes p: "p < 64"
    and I2: "\<forall>q<p. addr_bit A q = bit y q"
    and I3: "\<forall>q. p \<le> q \<and> int q < L \<and> branch ds y q \<longrightarrow> addr_bit A q = bit y q"
    and nh: "no_hazard ds L y"
    and A': "\<forall>q<64. addr_bit A' q =
               (if q = p then bit y p
                else addr_bit A q \<or> (spur \<and> q div 8 = p div 8 \<and> q mod 8 = 2 * (p mod 8)))"
    and spur: "spur \<Longrightarrow> bit y p \<and> branch ds y p"
  shows "(\<forall>q<Suc p. addr_bit A' q = bit y q) \<and>
         (\<forall>q. Suc p \<le> q \<and> int q < L \<and> branch ds y q \<longrightarrow> addr_bit A' q = bit y q)"
proof (intro conjI allI impI)
  fix q assume q: "q < Suc p"
  show "addr_bit A' q = bit y q"
  proof (cases "q = p")
    case True
    with A' p show ?thesis by simp
  next
    case False
    with q have lt: "q < p" by simp
    then have "\<not> (q div 8 = p div 8 \<and> q mod 8 = 2 * (p mod 8))"
      using same_byte_double [of q p] by auto
    with A' False lt p I2 show ?thesis by auto
  qed
next
  fix q assume q: "Suc p \<le> q \<and> int q < L \<and> branch ds y q"
  then have q64: "q < 64" and ne: "q \<noteq> p" using branch_less_64 by auto
  from q I3 have old: "addr_bit A q = bit y q" by simp
  show "addr_bit A' q = bit y q"
  proof (cases "spur \<and> q div 8 = p div 8 \<and> q mod 8 = 2 * (p mod 8)")
    case True
    then have "0 < p mod 8" using same_byte_double [of q p] ne by simp
    with True spur q nh have "bit y q"
      unfolding no_hazard_def by blast
    with A' q64 ne True show ?thesis by simp
  next
    case False
    with A' q64 ne old show ?thesis by auto
  qed
qed

lemma conflict_choice_target:
  assumes inv: "search_inv ds y L p w st" and tgt: "target ds L y" and br: "branch ds y p"
  shows "conflict_choice st p \<noteq> 0 \<longleftrightarrow> bit y p"
    and "conflict_choice st p = 0 \<or> conflict_choice st p = 1 \<or>
         (int p < L \<and> addr_bit (address st) p \<and>
          conflict_choice st p = address st ! (p div 8) AND push_bit (p mod 8) 1)"
proof -
  from inv have L: "last_zero_branch st = L"
    and I3: "int p < L \<Longrightarrow> addr_bit (address st) p = bit y p"
    using br by (auto simp add: search_inv_def)
  from tgt br have t: "int p = L \<Longrightarrow> bit y p" "L < int p \<Longrightarrow> \<not> bit y p"
    by (auto simp add: target_def)
  show "conflict_choice st p \<noteq> 0 \<longleftrightarrow> bit y p"
    using L I3 t replay_value_nonzero [of "address st" p]
    by (auto simp add: conflict_choice_def)
  show "conflict_choice st p = 0 \<or> conflict_choice st p = 1 \<or>
         (int p < L \<and> addr_bit (address st) p \<and>
          conflict_choice st p = address st ! (p div 8) AND push_bit (p mod 8) 1)"
    using L replay_value_nonzero [of "address st" p]
    by (auto simp add: conflict_choice_def)
qed

lemma search_inv_step:
  assumes inv: "search_inv ds y L p w st" and p: "p < 64"
    and tgt: "target ds L y" and nh: "no_hazard ds L y"
  shows "\<exists>w' st'. search_bit sim_bus p w st l
            = (True, w', st', if zero_branch ds y p then int p else l) \<and>
          search_inv ds y L (Suc p) w' st' \<and> done_flag st' = done_flag st"
proof -
  let ?act = "filter (\<lambda>d. agree p d y) ds"
  let ?A = "address st"
  from tgt have y: "y \<in> set ds" by (simp add: target_def)
  from inv have env: "fst w = \<lparr>sim_devices = ds, sim_mode = SimSearch p 0 ?act\<rparr>"
    and len: "length ?A = 8" and L: "last_zero_branch st = L"
    and I2: "\<forall>q<p. addr_bit ?A q = bit y q"
    and I3: "\<forall>q. p \<le> q \<and> int q < L \<and> branch ds y q \<longrightarrow> addr_bit ?A q = bit y q"
    by (simp_all add: search_inv_def)
  let ?r1 = "bit y p \<and> \<not> branch ds y p"
  let ?r2 = "\<not> bit y p \<and> \<not> branch ds y p"
  let ?e1 = "\<lparr>sim_devices = ds, sim_mode = SimSearch p 1 ?act\<rparr>"
  let ?e2 = "\<lparr>sim_devices = ds, sim_mode = SimSearch p 2 ?act\<rparr>"
  have rd1: "read_sample sim_bus (fst w) = (?r1, ?e1)"
    using p y by (simp add: env sim_read_bit active_all_one)
  have rd2: "read_sample sim_bus ?e1 = (?r2, ?e2)"
    by (simp only: sim_read_complement [OF p] active_all_zero [OF y])
  have wr: "write_slot sim_bus (bit y p) ?e2
      = \<lparr>sim_devices = ds, sim_mode = SimSearch (Suc p) 0 (filter (\<lambda>d. agree (Suc p) d y) ds)\<rparr>"
    by (simp only: sim_write_search active_step)
  have fin: "search_inv ds y L (Suc p) (write_slot sim_bus (bit y p) ?e2, tr)
               (st\<lparr>address := write_address_bit ?A (p div 8) (p mod 8) v\<rparr>)"
    if A': "\<forall>q<64. addr_bit (write_address_bit ?A (p div 8) (p mod 8) v) q =
               (if q = p then bit y p
                else addr_bit ?A q \<or> (spur \<and> q div 8 = p div 8 \<and> q mod 8 = 2 * (p mod 8)))"
      and spur: "spur \<Longrightarrow> bit y p \<and> branch ds y p"
    for tr v spur
    using inv_after_write [OF p I2 I3 nh A' spur] len L
    by (simp add: search_inv_def wr)
  consider (one) "bit y p" "\<not> branch ds y p" | (zero) "\<not> bit y p" "\<not> branch ds y p"
    | (conflict) "branch ds y p" by blast
  then show ?thesis
  proof cases
    case one
    have "search_bit sim_bus p w st l =
      (True, (write_slot sim_bus True ?e2, snd w @ [EvRead True, EvRead False, EvWrite True]),
       st\<lparr>address := write_address_bit ?A (p div 8) (p mod 8) 1\<rparr>, l)"
      using rd1 rd2 one by (intro search_bit_one) simp_all
    moreover have "search_inv ds y L (Suc p)
        (write_slot sim_bus (bit y p) ?e2, snd w @ [EvRead True, EvRead False, EvWrite True])
        (st\<lparr>address := write_address_bit ?A (p div 8) (p mod 8) 1\<rparr>)"
      using one by (intro fin [where spur = False]) (simp_all add: addr_bit_write_one len p)
    ultimately show ?thesis using one by (simp add: zero_branch_def)
  next
    case zero
    have "search_bit sim_bus p w st l =
      (True, (write_slot sim_bus False ?e2, snd w @ [EvRead False, EvRead True, EvWrite False]),
       st\<lparr>address := write_address_bit ?A (p div 8) (p mod 8) 0\<rparr>, l)"
      using rd1 rd2 zero by (intro search_bit_zero) simp_all
    moreover have "search_inv ds y L (Suc p)
        (write_slot sim_bus (bit y p) ?e2, snd w @ [EvRead False, EvRead True, EvWrite False])
        (st\<lparr>address := write_address_bit ?A (p div 8) (p mod 8) 0\<rparr>)"
      using zero by (intro fin [where spur = False]) (simp_all add: addr_bit_write_zero len p)
    ultimately show ?thesis using zero by (simp add: zero_branch_def)
  next
    case conflict
    let ?v = "conflict_choice st p"
    have v: "?v \<noteq> 0 \<longleftrightarrow> bit y p"
      and vc: "?v = 0 \<or> ?v = 1 \<or> (int p < L \<and> addr_bit ?A p \<and>
          ?v = ?A ! (p div 8) AND push_bit (p mod 8) 1)"
      using conflict_choice_target [OF inv tgt conflict] by blast+
    have sb: "search_bit sim_bus p w st l =
      (True, (write_slot sim_bus (?v \<noteq> 0) ?e2,
              snd w @ [EvRead False, EvRead False, EvWrite (?v \<noteq> 0)]),
       st\<lparr>address := write_address_bit ?A (p div 8) (p mod 8) ?v\<rparr>,
       if ?v = 0 then int p else l)"
      using rd1 rd2 conflict by (intro search_bit_conflict) simp_all
    have A': "\<forall>q<64. addr_bit (write_address_bit ?A (p div 8) (p mod 8) ?v) q =
               (if q = p then bit y p
                else addr_bit ?A q \<or> (?v \<noteq> 0 \<and> ?v \<noteq> 1 \<and> q div 8 = p div 8 \<and> q mod 8 = 2 * (p mod 8)))"
    proof (intro allI impI)
      fix q :: nat assume q: "q < 64"
      from vc consider "?v = 0" | "?v = 1"
        | "?v \<noteq> 0" "?v \<noteq> 1" "addr_bit ?A p" "?v = ?A ! (p div 8) AND push_bit (p mod 8) 1"
        by blast
      then show "addr_bit (write_address_bit ?A (p div 8) (p mod 8) ?v) q =
               (if q = p then bit y p
                else addr_bit ?A q \<or> (?v \<noteq> 0 \<and> ?v \<noteq> 1 \<and> q div 8 = p div 8 \<and> q mod 8 = 2 * (p mod 8)))"
      proof cases
        case 1
        with v show ?thesis by (simp add: addr_bit_write_zero len p q)
      next
        case 2
        with v show ?thesis by (simp add: addr_bit_write_one len p q)
      next
        case 3
        have "addr_bit (write_address_bit ?A (p div 8) (p mod 8) ?v) q \<longleftrightarrow>
            addr_bit ?A q \<or> (q div 8 = p div 8 \<and> q mod 8 = 2 * (p mod 8))"
          using addr_bit_write_replay [OF len p q 3(3)] 3(4) by simp
        with 3 v show ?thesis by auto
      qed
    qed
    have "search_inv ds y L (Suc p)
        (write_slot sim_bus (bit y p) ?e2, snd w @ [EvRead False, EvRead False, EvWrite (?v \<noteq> 0)])
        (st\<lparr>address := write_address_bit ?A (p div 8) (p mod 8) ?v\<rparr>)"
      using A' v conflict by (intro fin [where spur = "?v \<noteq> 0 \<and> ?v \<noteq> 1"]) auto
    with sb v conflict show ?thesis by (auto simp add: zero_branch_def)
  qed
qed

lemma last_zero_64 [simp]: "last_zero ds y 64 l = l"
  by (simp add: last_zero_def)

lemma last_zero_step:
  "p < 64 \<Longrightarrow> last_zero ds y p l = last_zero ds y (Suc p) (if zero_branch ds y p then int p else l)"
  by (simp add: last_zero_def upt_conv_Cons)

lemma search_bits_sim:
  assumes "search_inv ds y L p w st" and "p \<le> 64"
    and tgt: "target ds L y" and nh: "no_hazard ds L y"
  shows "\<exists>w' st'. search_bits sim_bus p w st l = (True, w', st', last_zero ds y p l) \<and>
          search_inv ds y L 64 w' st' \<and> done_flag st' = done_flag st"
  using assms(1,2)
proof (induction n \<equiv> "64 - p" arbitrary: p w st l)
  case 0
  then have "p = 64" by simp
  with 0 show ?case by (simp add: search_bits_end)
next
  case (Suc n)
  then have p: "p < 64" by simp
  from search_inv_step [OF Suc.prems(1) p tgt nh, of l]
  obtain w1 st1 where
    sb: "search_bit sim_bus p w st l = (True, w1, st1, if zero_branch ds y p then int p else l)"
    and inv1: "search_inv ds y L (Suc p) w1 st1" and d1: "done_flag st1 = done_flag st"
    by blast
  have "n = 64 - Suc p" using Suc.hyps(2) by simp
  from Suc.hyps(1) [OF this inv1, of "if zero_branch ds y p then int p else l"] p
  obtain w' st' where
    "search_bits sim_bus (Suc p) w1 st1 (if zero_branch ds y p then int p else l)
       = (True, w', st', last_zero ds y (Suc p) (if zero_branch ds y p then int p else l))"
    "search_inv ds y L 64 w' st'" "done_flag st' = done_flag st1"
    by auto
  with search_bits_step [OF p sb] d1 last_zero_step [OF p, of ds y l]
  show ?case by auto
qed

lemma length_rom_bytes [simp]: "length (rom_bytes d) = 8"
  by (simp add: rom_bytes_def)

lemma addr_bit_rom_bytes: "q < 64 \<Longrightarrow> addr_bit (rom_bytes d) q = bit d q"
proof -
  assume q: "q < 64"
  then have i: "q div 8 < 8" by simp
  have "rom_bytes d ! (q div 8) = ucast (drop_bit (8 * (q div 8)) d)"
    using i by (simp add: rom_bytes_def del: upt_Suc)
  then show ?thesis
    by (simp add: addr_bit_def bit_simps)
qed

lemma address_eqI:
  assumes "length A = 8" "length A' = 8" "\<forall>q<64. addr_bit A q = addr_bit A' q"
  shows "A = A'"
proof (rule nth_equalityI)
  show "length A = length A'" using assms by simp
next
  fix i assume "i < length A"
  then have i: "i < 8" using assms by simp
  show "A ! i = A' ! i"
  proof (rule bit_word_eqI)
    fix n assume "n < LENGTH(8)"
    then have n: "n < 8" by simp
    with i have "8 * i + n < 64" "(8 * i + n) div 8 = i" "(8 * i + n) mod 8 = n" by simp_all
    with assms(3) show "bit (A ! i) n = bit (A' ! i) n"
      unfolding addr_bit_def by metis
  qed
qed

lemma search_inv_final:
  "search_inv ds y L 64 w st \<Longrightarrow> address st = rom_bytes y \<and> sim_devices (fst w) = ds"
  by (auto simp add: search_inv_def addr_bit_rom_bytes intro!: address_eqI)

lemma sim_command_search:
  "DS18B20_writeData sim_bus (\<lparr>sim_devices = ds, sim_mode = SimCommand []\<rparr>, tr) SEARCH_ROM
     = (0, (\<lparr>sim_devices = ds, sim_mode = SimSearch 0 0 ds\<rparr>,
            tr @ map EvWrite [False, False, False, False, True, True, True, True]))"
  by (simp add: DS18B20_writeData_def writeData_step_def SEARCH_ROM_def upt_rec
      DS18B20_write0_def DS18B20_write1_def sim_bus_def sim_write_def)

lemma sim_start:
  assumes "sim_devices (fst w) = ds" "ds \<noteq> []"
  shows "DS18B20_Start sim_bus w
     = (1, (\<lparr>sim_devices = ds, sim_mode = SimCommand []\<rparr>, snd w @ [EvReset False]))"
  using assms by (cases w, cases "fst w") (simp add: DS18B20_Start_def sim_bus_def sim_reset_def)

lemma cycle_sim:
  assumes ds: "sim_devices (fst w) = ds" "ds \<noteq> []"
    and st: "\<not> done_flag st" "length (address st) = 8"
    and tgt: "target ds (last_zero_branch st) y"
    and nh: "no_hazard ds (last_zero_branch st) y"
    and I3: "\<forall>q. int q < last_zero_branch st \<and> branch ds y q
              \<longrightarrow> addr_bit (address st) q = bit y q"
  shows "\<exists>w' st'. searchDevices sim_bus w SEARCH_ROM st = (0, w', st') \<and>
           sim_devices (fst w') = ds \<and> address st' = rom_bytes y \<and>
           (if last_zero ds y 0 (- 1) = - 1
            then done_flag st' \<and> last_zero_branch st' = last_zero_branch st
            else \<not> done_flag st' \<and> last_zero_branch st' = last_zero ds y 0 (- 1))"
proof -
  have "\<exists>tr. searchDevices sim_bus w SEARCH_ROM st
          = searchNext sim_bus (\<lparr>sim_devices = ds, sim_mode = SimSearch 0 0 ds\<rparr>, tr) st"
    using st(1) by (auto simp add: searchDevices_def sim_start [OF ds] sim_command_search)
  then obtain tr where sd: "searchDevices sim_bus w SEARCH_ROM st
          = searchNext sim_bus (\<lparr>sim_devices = ds, sim_mode = SimSearch 0 0 ds\<rparr>, tr) st"
    by blast
  let ?w2 = "(\<lparr>sim_devices = ds, sim_mode = SimSearch 0 0 ds\<rparr>, tr)"
  have inv0: "search_inv ds y (last_zero_branch st) 0 ?w2 st"
    using st(2) I3 by (simp add: search_inv_def)
  from search_bits_sim [OF inv0 _ tgt nh, of "- 1"]
  obtain w' st' where
    sb: "search_bits sim_bus 0 ?w2 st (- 1) = (True, w', st', last_zero ds y 0 (- 1))"
    and inv: "search_inv ds y (last_zero_branch st) 64 w' st'"
    and d: "done_flag st' = done_flag st"
    by auto
  from inv have fin: "address st' = rom_bytes y" "sim_devices (fst w') = ds"
    "last_zero_branch st' = last_zero_branch st"
    using search_inv_final [OF inv] by (simp_all add: search_inv_def)
  show ?thesis
    using fin d st(1) by (simp add: sd searchNext_def sb del: search_bits.simps)
qed

lemma zero_branch_iff:
  "zero_branch ds y q \<longleftrightarrow> (\<exists>d\<in>set ds. agree q d y \<and> bit d q \<and> \<not> bit y q)"
  by (auto simp add: zero_branch_def branch_def)

lemma zero_branch_less_64: "zero_branch ds y q \<Longrightarrow> q < 64"
  using branch_less_64 [of ds y q] by (simp add: zero_branch_def)

lemma zero_branch_wire_less:
  "(\<exists>q. zero_branch ds y q) \<longleftrightarrow> (\<exists>d\<in>set ds. wire_less y d)"
proof
  assume "\<exists>q. zero_branch ds y q"
  then obtain q where z: "zero_branch ds y q" by blast
  then have "q < 64" by (rule zero_branch_less_64)
  moreover from z obtain d where "d \<in> set ds" "agree q d y" "bit d q" "\<not> bit y q"
    by (auto simp add: zero_branch_iff)
  ultimately show "\<exists>d\<in>set ds. wire_less y d"
    unfolding wire_less_iff using agree_sym by blast
next
  assume "\<exists>d\<in>set ds. wire_less y d"
  then show "\<exists>q. zero_branch ds y q"
    unfolding wire_less_iff zero_branch_iff using agree_sym by blast
qed

lemma last_zero_fold:
  "(fold (\<lambda>q l. if Z q then int q else l) [0..<n] (- 1) = - 1 \<and> (\<forall>q<n. \<not> Z q)) \<or>
   (\<exists>m<n. fold (\<lambda>q l. if Z q then int q else l) [0..<n] (- 1) = int m \<and> Z m \<and>
      (\<forall>q<n. Z q \<longrightarrow> q \<le> m))"
proof (induction n)
  case 0
  show ?case by simp
next
  case (Suc n)
  show ?case
  proof (cases "Z n")
    case True
    then show ?thesis by auto
  next
    case False
    with Suc show ?thesis
      by (auto simp add: less_Suc_eq)
  qed
qed

lemma last_zero_cases:
  "(last_zero ds y 0 (- 1) = - 1 \<and> (\<forall>q. \<not> zero_branch ds y q)) \<or>
   (\<exists>m. last_zero ds y 0 (- 1) = int m \<and> zero_branch ds y m \<and>
      (\<forall>q. zero_branch ds y q \<longrightarrow> q \<le> m))"
  using last_zero_fold [of "zero_branch ds y" 64] zero_branch_less_64 [of ds y]
  unfolding last_zero_def by (metis (no_types, lifting))

lemma branch_zero_smaller:
  assumes "branch ds y q" "bit y q"
  shows "\<exists>d\<in>set ds. agree q d y \<and> wire_less d y"
proof -
  from assms obtain d where d: "d \<in> set ds" "agree q d y" "\<not> bit d q"
    by (auto simp add: branch_def)
  moreover have "q < 64" using assms(1) by (rule branch_less_64)
  ultimately show ?thesis using assms(2) unfolding wire_less_iff by blast
qed

lemma least_target:
  assumes "least ds y"
  shows "target ds (- 1) y"
proof -
  have "\<not> bit y q" if "branch ds y q" for q
  proof
    assume "bit y q"
    with that obtain d where "d \<in> set ds" "wire_less d y"
      using branch_zero_smaller by blast
    with assms show False
      unfolding least_def by (metis wire_less_asym wire_less_irrefl)
  qed
  with assms show ?thesis by (auto simp add: target_def least_def)
qed

lemma successor_branch:
  assumes suc: "successor ds x y" and x: "x \<in> set ds"
    and m: "zero_branch ds x m" "\<forall>q. zero_branch ds x q \<longrightarrow> q \<le> m"
  shows "agree m x y \<and> bit y m \<and> \<not> bit x m"
proof -
  from suc obtain q where q: "q < 64" "agree q x y" "\<not> bit x q" "bit y q"
    and y: "y \<in> set ds"
    by (auto simp add: successor_def wire_less_iff)
  then have "zero_branch ds x q"
    unfolding zero_branch_iff using agree_sym by blast
  with m have le: "q \<le> m" by simp
  have "q = m"
  proof (rule ccontr)
    assume "q \<noteq> m"
    with le have lt: "q < m" by simp
    from m(1) obtain d where d: "d \<in> set ds" "agree m d x" "bit d m" "\<not> bit x m"
      by (auto simp add: zero_branch_iff)
    have m64: "m < 64" using m(1) by (rule zero_branch_less_64)
    have "wire_less x d"
      unfolding wire_less_iff using d m64 agree_sym by blast
    with suc d(1) have "d = y \<or> wire_less y d" by (simp add: successor_def)
    moreover have "\<not> bit d q" using d(2) lt q(3) agree_bit by blast
    moreover have "agree q d y"
      using d(2) lt q(2) agree_mono agree_trans by (meson less_imp_le_nat)
    ultimately show False
      using q(4) q(1) wire_less_asym [of d y] unfolding wire_less_iff by blast
  qed
  with q show ?thesis by simp
qed

lemma successor_target:
  assumes suc: "successor ds x y" and x: "x \<in> set ds"
    and m: "zero_branch ds x m" "\<forall>q. zero_branch ds x q \<longrightarrow> q \<le> m"
  shows "target ds (int m) y"
proof -
  from successor_branch [OF assms]
  have a: "agree m x y" and ym: "bit y m" and xm: "\<not> bit x m" by simp_all
  have m64: "m < 64" using m(1) by (rule zero_branch_less_64)
  have "\<not> bit y q" if br: "branch ds y q" and gt: "m < q" for q
  proof
    assume "bit y q"
    with br obtain d where d: "d \<in> set ds" "agree q d y" "wire_less d y"
      using branch_zero_smaller by blast
    have "agree m d x" using d(2) gt a agree_mono agree_trans agree_sym
      by (meson less_imp_le_nat)
    moreover have "bit d m" using d(2) gt ym agree_bit by blast
    ultimately have "wire_less x d"
      unfolding wire_less_iff using xm m64 agree_sym by blast
    with suc d(1) have "d = y \<or> wire_less y d" by (simp add: successor_def)
    with d(3) show False by (metis wire_less_asym wire_less_irrefl)
  qed
  with suc ym show ?thesis by (auto simp add: target_def successor_def)
qed

lemma branch_agree:
  assumes "agree m x y" "q < m"
  shows "branch ds x q = branch ds y q"
proof -
  have a: "agree q x y" using assms agree_mono by (meson less_imp_le_nat)
  have b: "bit x q = bit y q" using assms agree_bit by blast
  have "agree q d x = agree q d y" for d
    using a agree_trans agree_sym by blast
  with b show ?thesis by (simp add: branch_def)
qed

lemma successor_no_hazard:
  assumes suc: "successor ds x y" and x: "x \<in> set ds"
    and m: "zero_branch ds x m" "\<forall>q. zero_branch ds x q \<longrightarrow> q \<le> m"
    and safe: "\<not> replay_hazard ds"
  shows "no_hazard ds (int m) y"
  unfolding no_hazard_def
proof (intro allI impI, elim conjE)
  fix p q
  assume q: "int q < int m" and byte: "q div 8 = p div 8" "q mod 8 = 2 * (p mod 8)" "0 < p mod 8"
    and yp: "bit y p" and bp: "branch ds y p" and bq: "branch ds y q"
  from successor_branch [OF suc x m] have a: "agree m x y" by simp
  have m64: "m < 64" using m(1) by (rule zero_branch_less_64)
  have "q \<noteq> p" using byte by auto
  then have pq: "p < q" using same_byte_double [of q p] byte by simp
  with q have pm: "p < m" and qm: "q < m" by simp_all
  show "bit y q"
  proof (rule ccontr)
    assume nq: "\<not> bit y q"
    have "bit x p" using a pm yp agree_bit by blast
    moreover have "branch ds x p" using branch_agree [OF a pm] bp by simp
    moreover have "zero_branch ds x q"
      using branch_agree [OF a qm] bq nq a qm agree_bit unfolding zero_branch_def by blast
    ultimately have "replay_hazard ds"
      unfolding replay_hazard_def using x byte qm m(1) m64 pm qm
      by (intro bexI [of _ x] bexI [of _ p] bexI [of _ q] bexI [of _ m]) auto
    with safe show False by simp
  qed
qed

lemma cycle_discovers:
  assumes ds: "sim_devices (fst w) = ds" "ds \<noteq> []"
    and st: "\<not> done_flag st" "length (address st) = 8"
    and tgt: "target ds (last_zero_branch st) y"
    and nh: "no_hazard ds (last_zero_branch st) y"
    and I3: "\<forall>q. int q < last_zero_branch st \<and> branch ds y q
              \<longrightarrow> addr_bit (address st) q = bit y q"
  shows "\<exists>w' st'. searchDevices sim_bus w SEARCH_ROM st = (0, w', st') \<and>
           sim_devices (fst w') = ds \<and> discovered ds y st'"
proof -
  from cycle_sim [OF assms] obtain w' st' where
    c: "searchDevices sim_bus w SEARCH_ROM st = (0, w', st')" "sim_devices (fst w') = ds"
      "address st' = rom_bytes y"
    and l: "if last_zero ds y 0 (- 1) = - 1
            then done_flag st' \<and> last_zero_branch st' = last_zero_branch st
            else \<not> done_flag st' \<and> last_zero_branch st' = last_zero ds y 0 (- 1)"
    by blast
  from tgt have y: "y \<in> set ds" by (simp add: target_def)
  from last_zero_cases [of ds y] have "discovered ds y st'"
  proof (elim disjE conjE exE)
    assume "last_zero ds y 0 (- 1) = - 1" "\<forall>q. \<not> zero_branch ds y q"
    with l y c(3) zero_branch_wire_less [of ds y] show ?thesis
      by (simp add: discovered_def)
  next
    fix m
    assume "last_zero ds y 0 (- 1) = int m" "zero_branch ds y m"
      "\<forall>q. zero_branch ds y q \<longrightarrow> q \<le> m"
    with l y c(3) zero_branch_wire_less [of ds y] show ?thesis
      by (auto simp add: discovered_def)
  qed
  with c show ?thesis by blast
qed

lemma init_state:
  "snd (onewireSearchInit uninitialised)
     = \<lparr>last_zero_branch = - 1, done_flag = False, address = [0, 0, 0, 0, 0, 0, 0, 0]\<rparr>"
  by (simp add: onewireSearchInit_def uninitialised_def upt_rec eval_nat_numeral)

lemma cycle_first:
  assumes ds: "sim_devices (fst w) = ds" "ds \<noteq> []" and y: "least ds y"
  shows "\<exists>w' st'. searchDevices sim_bus w SEARCH_ROM (snd (onewireSearchInit uninitialised))
            = (0, w', st') \<and> sim_devices (fst w') = ds \<and> discovered ds y st'"
  using least_target [OF y]
  by (intro cycle_discovers [OF ds]) (simp_all add: init_state no_hazard_def)

lemma cycle_next:
  assumes ds: "sim_devices (fst w) = ds" and safe: "\<not> replay_hazard ds"
    and x: "discovered ds x st" and suc: "successor ds x y"
  shows "\<exists>w' st'. searchDevices sim_bus w SEARCH_ROM st = (0, w', st') \<and>
           sim_devices (fst w') = ds \<and> discovered ds y st'"
proof -
  from suc have "\<exists>d\<in>set ds. wire_less x d" by (auto simp add: successor_def)
  with x obtain m where xs: "x \<in> set ds" and a: "address st = rom_bytes x"
    and nd: "\<not> done_flag st" and L: "last_zero_branch st = int m"
    and m: "zero_branch ds x m" "\<forall>q. zero_branch ds x q \<longrightarrow> q \<le> m"
    by (auto simp add: discovered_def)
  from xs have ne: "ds \<noteq> []" by auto
  have ag: "agree m x y" using successor_branch [OF suc xs m] by simp
  have m64: "m < 64" using m(1) by (rule zero_branch_less_64)
  have I3: "\<forall>q. int q < last_zero_branch st \<and> branch ds y q
              \<longrightarrow> addr_bit (address st) q = bit y q"
    using ag m64 agree_bit by (auto simp add: L a addr_bit_rom_bytes)
  show ?thesis
    using nd successor_target [OF suc xs m] successor_no_hazard [OF suc xs m safe] I3
    by (intro cycle_discovers [OF ds ne]) (simp_all add: L a)
qed

lemma set_wire_insert [simp]: "set (wire_insert d es) = insert d (set es)"
  by (induction es) auto

lemma length_wire_insert [simp]: "length (wire_insert d es) = Suc (length es)"
  by (induction es) auto

lemma sorted_wire_insert:
  "sorted_wrt wire_less es \<Longrightarrow> d \<notin> set es \<Longrightarrow> sorted_wrt wire_less (wire_insert d es)"
proof (induction es)
  case Nil
  then show ?case by simp
next
  case (Cons e es)
  show ?case
  proof (cases "wire_less d e")
    case True
    with Cons.prems show ?thesis using wire_less_trans by auto
  next
    case False
    with Cons.prems have "wire_less e d" using wire_less_total [of d e] by auto
    with Cons False show ?thesis by auto
  qed
qed

lemma wire_sort_sorted:
  "distinct ds \<Longrightarrow> sorted_wrt wire_less (wire_sort ds) \<and> set (wire_sort ds) = set ds
     \<and> length (wire_sort ds) = length ds"
  unfolding wire_sort_def by (induction ds) (auto simp add: sorted_wire_insert)

lemma search_cycles_done:
  "done_flag st \<Longrightarrow> search_cycles k B w command st = replicate k (1, st)"
  by (induction k) (simp_all add: searchDevices_def)

lemma sorted_last_iff:
  assumes "sorted_wrt wire_less (y # zs)"
  shows "y = last (y # zs) \<longleftrightarrow> zs = []"
proof (cases zs)
  case Nil
  then show ?thesis by simp
next
  case (Cons z zs')
  then have "last (y # zs) \<in> set zs" by simp
  with assms have "wire_less y (last (y # zs))" by simp
  with Cons show ?thesis by auto
qed

lemma discovered_done_iff:
  assumes srt: "sorted_wrt wire_less (y # zs)" and sub: "set zs \<subseteq> set ds"
    and up: "\<forall>d\<in>set ds. wire_less y d \<longrightarrow> d \<in> set zs"
    and d: "discovered ds y st"
  shows "done_flag st \<longleftrightarrow> y = last (y # zs)"
proof -
  have "(\<exists>d\<in>set ds. wire_less y d) \<longleftrightarrow> zs \<noteq> []"
  proof
    assume "\<exists>d\<in>set ds. wire_less y d"
    with up show "zs \<noteq> []" by auto
  next
    assume "zs \<noteq> []"
    then obtain z where "z \<in> set zs" by (cases zs) auto
    with srt sub show "\<exists>d\<in>set ds. wire_less y d" by auto
  qed
  with d sorted_last_iff [OF srt] show ?thesis
    by (auto simp add: discovered_def)
qed

lemma search_cycles_chain:
  assumes "sorted_wrt wire_less (x # zs)" and "set zs \<subseteq> set ds"
    and "\<forall>d\<in>set ds. wire_less x d \<longrightarrow> d \<in> set zs"
    and "discovered ds x st" and "sim_devices (fst w) = ds" and safe: "\<not> replay_hazard ds"
  shows "map cycle_view (search_cycles (length zs + k) sim_bus w SEARCH_ROM st)
     = map (\<lambda>y. (0, rom_bytes y, y = last (x # zs))) zs
       @ replicate k (1, rom_bytes (last (x # zs)), True)"
  using assms(1-5)
proof (induction zs arbitrary: x w st)
  case Nil
  then have "done_flag st" "address st = rom_bytes x"
    by (auto simp add: discovered_def)
  then show ?case
    by (simp add: search_cycles_done cycle_view_def)
next
  case (Cons y zs)
  have suc: "successor ds x y"
    using Cons.prems(1,2,3) by (auto simp add: successor_def)
  from cycle_next [OF Cons.prems(5) safe Cons.prems(4) suc]
  obtain w' st' where c: "searchDevices sim_bus w SEARCH_ROM st = (0, w', st')"
    "sim_devices (fst w') = ds" "discovered ds y st'"
    by blast
  have srt: "sorted_wrt wire_less (y # zs)" using Cons.prems(1) by simp
  have sub: "set zs \<subseteq> set ds" using Cons.prems(2) by simp
  have up: "\<forall>d\<in>set ds. wire_less y d \<longrightarrow> d \<in> set zs"
  proof (intro ballI impI)
    fix d assume d: "d \<in> set ds" "wire_less y d"
    have "wire_less x y" using Cons.prems(1) by simp
    with d have "wire_less x d" using wire_less_trans by blast
    with Cons.prems(3) d(1) have "d \<in> set (y # zs)" by blast
    with d(2) show "d \<in> set zs" by auto
  qed
  have dn: "done_flag st' \<longleftrightarrow> y = last (y # zs)"
    using discovered_done_iff [OF srt sub up c(3)] .
  have a: "address st' = rom_bytes y" using c(3) by (simp add: discovered_def)
  have l: "last (x # y # zs) = last (y # zs)" by simp
  from Cons.IH [OF srt sub up c(3) c(2)] show ?case
    unfolding l using dn a by (simp add: c(1) cycle_view_def)
qed

lemma search_cycles_sorted:
  assumes srt: "sorted_wrt wire_less ys" and set: "set ys = set ds" and ne: "ys \<noteq> []"
    and safe: "\<not> replay_hazard ds"
  shows "map cycle_view (search_cycles (length ys + k) sim_bus (sim_world ds) SEARCH_ROM
            (snd (onewireSearchInit uninitialised)))
     = map (\<lambda>y. (0, rom_bytes y, y = last ys)) ys @ replicate k (1, rom_bytes (last ys), True)"
proof -
  from ne obtain y zs where ys: "ys = y # zs" by (cases ys) auto
  have least: "least ds y"
    using srt set unfolding ys least_def by auto
  have ds: "sim_devices (fst (sim_world ds)) = ds" by (simp add: sim_world_def)
  have dne: "ds \<noteq> []" using set ne by auto
  from cycle_first [OF ds dne least]
  obtain w' st' where c: "searchDevices sim_bus (sim_world ds) SEARCH_ROM
      (snd (onewireSearchInit uninitialised)) = (0, w', st')"
    "sim_devices (fst w') = ds" "discovered ds y st'"
    by blast
  have srt': "sorted_wrt wire_less (y # zs)" using srt ys by simp
  have sub: "set zs \<subseteq> set ds" using set ys by auto
  have up: "\<forall>d\<in>set ds. wire_less y d \<longrightarrow> d \<in> set zs"
  proof (intro ballI impI)
    fix d assume d: "d \<in> set ds" "wire_less y d"
    then have "d \<noteq> y" by auto
    with d(1) set ys show "d \<in> set zs" by auto
  qed
  have dn: "done_flag st' \<longleftrightarrow> y = last (y # zs)"
    using discovered_done_iff [OF srt' sub up c(3)] .
  have a: "address st' = rom_bytes y" using c(3) by (simp add: discovered_def)
  from search_cycles_chain [OF srt' sub up c(3) c(2) safe, of k] show ?thesis
    unfolding ys using dn a by (simp add: c(1) cycle_view_def)
qed

section \<open>The claims about the search order\<close>

lemma replay_hazard_four:
  assumes "replay_hazard ds"
  shows "4 \<le> length ds"
proof -
  from assms obtain x p q r where x: "x \<in> set ds"
    and pos: "q div 8 = p div 8" "q mod 8 = 2 * (p mod 8)" "0 < p mod 8" "q < r"
    and bp: "branch ds x p" and bq: "zero_branch ds x q" and br: "zero_branch ds x r"
    unfolding replay_hazard_def by blast
  have "q \<noteq> p" using pos by auto
  then have pq: "p < q" using same_byte_double [of q p] pos by simp
  from bp obtain a where a: "a \<in> set ds" "agree p a x" "bit a p \<noteq> bit x p"
    by (auto simp add: branch_def)
  from bq obtain b where b: "b \<in> set ds" "agree q b x" "bit b q \<noteq> bit x q"
    by (auto simp add: zero_branch_def branch_def)
  from br obtain c where c: "c \<in> set ds" "agree r c x" "bit c r \<noteq> bit x r"
    by (auto simp add: zero_branch_def branch_def)
  have "a \<noteq> x" "b \<noteq> x" "c \<noteq> x" using a b c by auto
  moreover have "a \<noteq> b" using difference_unique [OF a(2,3)] b pq by auto
  moreover have "a \<noteq> c" using difference_unique [OF a(2,3)] c pq pos(4) by auto
  moreover have "b \<noteq> c" using difference_unique [OF b(2,3)] c pos(4) by auto
  ultimately have "card {x, a, b, c} = 4" by simp
  moreover have "{x, a, b, c} \<subseteq> set ds" using x a b c by simp
  ultimately have "4 \<le> card (set ds)"
    by (metis card_mono List.finite_set)
  then show ?thesis using card_length [of ds] by linarith
qed

text \<open>
  C1 (amended). On a simulated bus with \<open>N\<close> devices of distinct ROMs and no replay
  hazard, \<open>N\<close> search cycles from the freshly initialised state return 0 and leave in
  \<^verbatim>\<open>state.address\<close> the ROMs of all \<open>N\<close> devices, each exactly once, in ascending wire order
  (\<open>wire_sort ds\<close> is sorted by \<open>wire_less\<close> and has the elements of \<open>ds\<close>); the done flag is
  set by the \<open>N\<close>-th cycle and by no earlier one; every later call returns 1 and leaves
  the state as it is.
\<close>

theorem search_discovers_in_wire_order:
  assumes "distinct ds" and "ds \<noteq> []" and "\<not> replay_hazard ds"
  shows "sorted_wrt wire_less (wire_sort ds) \<and> set (wire_sort ds) = set ds \<and>
     length (wire_sort ds) = length ds \<and>
     map cycle_view (search_cycles (length ds + k) sim_bus (sim_world ds) SEARCH_ROM
            (snd (onewireSearchInit uninitialised)))
     = map (\<lambda>y. (0, rom_bytes y, y = last (wire_sort ds))) (wire_sort ds)
       @ replicate k (1, rom_bytes (last (wire_sort ds)), True)"
proof -
  from wire_sort_sorted [OF assms(1)]
  have s: "sorted_wrt wire_less (wire_sort ds)" "set (wire_sort ds) = set ds"
    "length (wire_sort ds) = length ds" by simp_all
  from s(2) assms(2) have ne: "wire_sort ds \<noteq> []" by auto
  from search_cycles_sorted [OF s(1,2) ne assms(3), of k] s show ?thesis by simp
qed

lemma wire_less_2_1: "wire_less (2::uint64) 1"
  unfolding wire_less_iff by (rule exI [of _ 0]) simp

lemma wire_less_0_2: "wire_less (0::uint64) 2"
  unfolding wire_less_iff by (rule exI [of _ 1]) (simp add: agree_iff)

lemma wire_sort_0_1_2: "wire_sort [0, 1, 2] = [0, 2, 1]"
  using wire_less_2_1 wire_less_0_2 wire_less_asym [OF wire_less_2_1]
  by (simp add: wire_sort_def)

lemma rom_bytes_small:
  "rom_bytes 0 = [0, 0, 0, 0, 0, 0, 0, 0]"
  "rom_bytes 1 = [1, 0, 0, 0, 0, 0, 0, 0]"
  "rom_bytes 2 = [2, 0, 0, 0, 0, 0, 0, 0]"
  by (simp_all add: rom_bytes_def upt_rec drop_bit_eq_div)

theorem search_discovers_in_wire_order_witness:
  "distinct [0, 1, 2 :: uint64] \<and> [0, 1, 2 :: uint64] \<noteq> [] \<and> \<not> replay_hazard [0, 1, 2] \<and>
   map cycle_view (search_cycles 4 sim_bus (sim_world [0, 1, 2]) SEARCH_ROM
       (snd (onewireSearchInit uninitialised)))
   = [(0, [0, 0, 0, 0, 0, 0, 0, 0], False), (0, [2, 0, 0, 0, 0, 0, 0, 0], False),
      (0, [1, 0, 0, 0, 0, 0, 0, 0], True), (1, [1, 0, 0, 0, 0, 0, 0, 0], True)]"
proof -
  have d: "distinct [0, 1, 2 :: uint64]" by simp
  have n: "[0, 1, 2 :: uint64] \<noteq> []" by simp
  have h: "\<not> replay_hazard [0, 1, 2]" using replay_hazard_four [of "[0, 1, 2]"] by auto
  have len: "length [0, 1, 2 :: uint64] + 1 = 4" by simp
  from search_discovers_in_wire_order [OF d n h, of 1, unfolded len] d n h show ?thesis
    by (simp add: wire_sort_0_1_2 rom_bytes_small del: search_cycles.simps)
qed

text \<open>
  C1 as stated fails: with the two devices whose family codes are 0x01 and 0x02 (all
  other bytes 0) the first cycle discovers 0x02 and the second 0x01, in descending
  numeric order, whether the address is read with byte 0 most significant or as the
  wire-order word.
\<close>

lemma wire_sort_1_2: "wire_sort [1, 2] = [2, 1]"
  using wire_less_2_1 wire_less_asym [OF wire_less_2_1]
  by (simp add: wire_sort_def)

theorem search_order_counterexample:
  "map cycle_view (search_cycles 2 sim_bus (sim_world [1, 2]) SEARCH_ROM
       (snd (onewireSearchInit uninitialised)))
   = [(0, [2, 0, 0, 0, 0, 0, 0, 0], False), (0, [1, 0, 0, 0, 0, 0, 0, 0], True)] \<and>
   msb_first_value [1, 0, 0, 0, 0, 0, 0, 0] < msb_first_value [2, 0, 0, 0, 0, 0, 0, 0] \<and>
   (1 :: uint64) < 2"
proof -
  have s: "sorted_wrt wire_less [2, 1 :: uint64]" using wire_less_2_1 by simp
  have h: "\<not> replay_hazard [1, 2]" using replay_hazard_four [of "[1, 2]"] by auto
  have len: "length [2, 1 :: uint64] + 0 = 2" by simp
  have "map cycle_view (search_cycles 2 sim_bus (sim_world [1, 2]) SEARCH_ROM
       (snd (onewireSearchInit uninitialised)))
   = [(0, [2, 0, 0, 0, 0, 0, 0, 0], False), (0, [1, 0, 0, 0, 0, 0, 0, 0], True)]"
    using search_cycles_sorted [OF s _ _ h, of 0, unfolded len]
    by (simp add: rom_bytes_small insert_commute del: search_cycles.simps)
  then show ?thesis
    by (simp add: msb_first_value_def del: search_cycles.simps)
qed

section \<open>The stored ROM code\<close>

text \<open>
  Bits 32 to 63 of a packed value are all equal, whatever the target yields for the
  over-wide shifts: the shift is done on a 32-bit \<^verbatim>\<open>int\<close> and its result is sign-extended.
\<close>

lemma scast_high_bits:
  "bit (scast (t :: 32 word) :: uint64) 59 = bit (scast t :: uint64) 63"
  by (simp add: bit_signed_iff)

lemma ROM_code_of_high_bits:
  "bit (ROM_code_of wide a) 59 = bit (ROM_code_of wide a) 63"
proof -
  have "bit (fold (\<lambda>i code. code OR scast (shl_int wide (a ! i) (8 * (7 - i)))) is c) 59
      = bit (fold (\<lambda>i code. code OR scast (shl_int wide (a ! i) (8 * (7 - i)))) is c) 63"
    if "bit c 59 = bit c 63" for "is" and c :: uint64
    using that by (induction "is" arbitrary: c) (simp_all add: bit_or_iff scast_high_bits)
  then show ?thesis by (simp add: ROM_code_of_def)
qed

section \<open>Reading temperatures on the scripted bus\<close>

lemma Temperature_of_logical:
  "Temperature_of (ucast raw) (ucast (drop_bit 8 raw)) = drop_bit 4 (raw :: uint16)"
  unfolding Temperature_of_def
  by (rule bit_word_eqI) (auto simp add: bit_simps dest: bit_imp_le_length)

lemma script_write_env [simp]:
  "fst (snd (DS18B20_write0 script_bus w)) = fst w"
  "fst (snd (DS18B20_write1 script_bus w)) = fst w"
  by (simp_all add: DS18B20_write0_def DS18B20_write1_def script_bus_def)

lemma script_writeData_env [simp]:
  "fst (snd (DS18B20_writeData script_bus w d)) = fst w"
proof -
  have "fst (fold (writeData_step script_bus d) is w) = fst w" for "is"
    by (induction "is" arbitrary: w) (simp_all add: writeData_step_def)
  then show ?thesis by (simp add: DS18B20_writeData_def)
qed

lemma script_send_env [simp]:
  "fst (send_ROM_code script_bus code w) = fst w"
proof -
  have "fst (fold (\<lambda>i w. snd (DS18B20_writeData script_bus w (ucast (drop_bit (8 * (7 - i)) code AND 0xFF)))) is w) = fst w" for "is"
    by (induction "is" arbitrary: w) simp_all
  then show ?thesis by (simp add: send_ROM_code_def)
qed

lemma script_Start_env [simp]:
  "fst (snd (DS18B20_Start script_bus w)) = tl (fst w)"
  by (cases "fst w") (simp_all add: DS18B20_Start_def script_bus_def script_sample_def)

lemma script_read:
  "fst w = b # rest \<Longrightarrow> DS18B20_read script_bus w = (of_bool b, (rest, snd w @ [EvRead b]))"
  by (simp add: DS18B20_read_def script_bus_def script_sample_def)

lemma take_bit_Suc_or:
  "take_bit (Suc n) (x :: uint8) = take_bit n x OR push_bit n (of_bool (bit x n))"
  by (rule bit_word_eqI) (auto simp add: bit_simps less_Suc_eq)

lemma script_read_bits:
  assumes "fst w = map (bit (x :: uint8)) [0..<n] @ rest"
  shows "fst (fold (readByte_step script_bus) [0..<n] (0, w)) = take_bit n x \<and>
         fst (snd (fold (readByte_step script_bus) [0..<n] (0, w))) = rest"
  using assms
proof (induction n arbitrary: rest)
  case 0
  then show ?case by simp
next
  case (Suc n)
  let ?vw = "fold (readByte_step script_bus) [0..<n] (0, w)"
  from Suc.prems have "fst w = map (bit x) [0..<n] @ (bit x n # rest)" by simp
  from Suc.IH [OF this] have v: "fst ?vw = take_bit n x" and e: "fst (snd ?vw) = bit x n # rest"
    by simp_all
  have "readByte_step script_bus n ?vw
      = (take_bit n x OR push_bit n (of_bool (bit x n)), (rest, snd (snd ?vw) @ [EvRead (bit x n)]))"
    using v script_read [OF e] by (simp add: readByte_step_def)
  then show ?case by (simp add: take_bit_Suc_or)
qed

lemma script_readByte:
  assumes "fst w = map (bit (x :: uint8)) [0..<8] @ rest"
  shows "fst (DS18B20_readByte script_bus w) = x"
    and "fst (snd (DS18B20_readByte script_bus w)) = rest"
proof -
  have "take_bit 8 x = x" by (rule bit_word_eqI) (simp add: bit_simps)
  with script_read_bits [OF assms]
  show "fst (DS18B20_readByte script_bus w) = x"
    and "fst (snd (DS18B20_readByte script_bus w)) = rest"
    by (simp_all add: DS18B20_readByte_def)
qed

lemma raw_bits_split:
  "map (bit (raw :: uint16)) [0..<16]
     = map (bit (ucast raw :: uint8)) [0..<8] @ map (bit (ucast (drop_bit 8 raw) :: uint8)) [0..<8] @ []"
proof -
  have "[0..<16] = [0..<8] @ map (\<lambda>i. 8 + i) [0..<8]"
    by (simp add: upt_rec)
  then have "map (bit raw) [0..<16]
     = map (bit raw) [0..<8] @ map (\<lambda>i. bit raw (8 + i)) [0..<8]"
    by (simp add: comp_def del: upt_Suc)
  moreover have "map (bit raw) [0..<8] = map (bit (ucast raw :: uint8)) [0..<8]"
    by (rule map_cong) (auto simp add: bit_simps)
  moreover have "map (\<lambda>i. bit raw (8 + i)) [0..<8] = map (bit (ucast (drop_bit 8 raw) :: uint8)) [0..<8]"
    by (rule map_cong) (auto simp add: bit_simps)
  ultimately show ?thesis by simp
qed

lemma script_read_scratchpad:
  "fst (read_scratchpad script_bus (r1 # r2 # map (bit (raw :: uint16)) [0..<16], tr) code)
     = (ucast raw, ucast (drop_bit 8 raw))"
proof -
  define w0 :: "bool list world" where "w0 = (r1 # r2 # map (bit raw) [0..<16], tr)"
  define w1 where "w1 = snd (DS18B20_Start script_bus w0)"
  define w2 where "w2 = snd (DS18B20_writeData script_bus w1 MATCH_ROM)"
  define w3 where "w3 = send_ROM_code script_bus code w2"
  define w4 where "w4 = snd (DS18B20_writeData script_bus w3 CONVERT_T)"
  define w5 where "w5 = snd (DS18B20_Start script_bus w4)"
  define w6 where "w6 = snd (DS18B20_writeData script_bus w5 MATCH_ROM)"
  define w7 where "w7 = send_ROM_code script_bus code w6"
  define w8 where "w8 = snd (DS18B20_writeData script_bus w7 READ_SCRATCHPAD)"
  have e8: "fst w8 = map (bit (ucast raw :: uint8)) [0..<8]
      @ map (bit (ucast (drop_bit 8 raw) :: uint8)) [0..<8] @ []"
    unfolding w8_def w7_def w6_def w5_def w4_def w3_def w2_def w1_def w0_def
    by (simp add: raw_bits_split del: upt_Suc)
  note b1 = script_readByte [OF e8]
  note b2 = script_readByte [OF b1(2)]
  have "read_scratchpad script_bus w0 code
      = ((fst (DS18B20_readByte script_bus w8),
          fst (DS18B20_readByte script_bus (snd (DS18B20_readByte script_bus w8)))),
         snd (DS18B20_readByte script_bus (snd (DS18B20_readByte script_bus w8))))"
    unfolding w8_def w7_def w6_def w5_def w4_def w3_def w2_def w1_def
    by (simp add: read_scratchpad_def Let_def split_beta)
  with b1 b2 show ?thesis by (simp add: w0_def)
qed

lemma outcome_simps [simp]:
  "outcome None = None"
  "outcome (Some (Inl e)) = Some (Inl e)"
  "outcome (Some (Inr (r, w, out))) = Some (Inr (r, out))"
  by (simp_all add: outcome_def)

lemma GetTemp_single:
  assumes "code \<noteq> 0"
  shows "outcome (DS18B20_GetTemp B w [code, 0] (t # ts))
     = Some (Inr (0, Temperature_of (fst (fst (read_scratchpad B w code)))
                      (snd (fst (read_scratchpad B w code))) # ts))"
  unfolding DS18B20_GetTemp_def
  apply (subst GetTemp_loop.simps)
  apply (subst GetTemp_loop.simps)
  using assms apply (simp add: split_beta)
  done

lemma GetTemp_script:
  assumes "code \<noteq> 0"
  shows "outcome (DS18B20_GetTemp script_bus (r1 # r2 # map (bit (raw :: uint16)) [0..<16], tr)
            [code, 0] (t # ts))
     = Some (Inr (0, drop_bit 4 raw # ts))"
  using GetTemp_single [OF assms, of script_bus "(r1 # r2 # map (bit raw) [0..<16], tr)" t ts]
  by (simp only: script_read_scratchpad fst_conv snd_conv Temperature_of_logical)

lemma logical_eq_arithmetic_iff:
  "drop_bit 4 raw = signed_drop_bit 4 raw \<longleftrightarrow> \<not> bit (raw :: uint16) 15"
proof
  assume e: "drop_bit 4 raw = signed_drop_bit 4 raw"
  then have "bit (drop_bit 4 raw) 12 = bit (signed_drop_bit 4 raw) 12" by simp
  moreover have "\<not> bit raw 16" using bit_imp_le_length [of raw 16] by auto
  ultimately show "\<not> bit raw 15"
    by (simp add: bit_simps)
next
  assume "\<not> bit raw 15"
  then show "drop_bit 4 raw = signed_drop_bit 4 raw"
    by (intro bit_word_eqI) (auto simp add: bit_simps dest: bit_imp_le_length)
qed

text \<open>
  C8 (amended). For every 16-bit raw value that the scratchpad read returns, low byte
  first, \<^verbatim>\<open>DS18B20_GetTemp\<close> stores the logical right shift of the raw value by 4, an
  unsigned number below 4096. It is the arithmetic shift, the signed whole-degree
  reading, exactly when the sign bit of the raw value is clear.
\<close>

theorem GetTemp_stores_logical_shift:
  assumes "code \<noteq> 0"
  shows "outcome (DS18B20_GetTemp script_bus (r1 # r2 # map (bit (raw :: uint16)) [0..<16], tr)
            [code, 0] (t # ts))
     = Some (Inr (0, drop_bit 4 raw # ts)) \<and>
     (drop_bit 4 raw = signed_drop_bit 4 raw \<longleftrightarrow> \<not> bit raw 15)"
  using GetTemp_script [OF assms] logical_eq_arithmetic_iff by simp

theorem GetTemp_stores_logical_shift_witness:
  "(0x28FF4A1B2C3D4E5F :: uint64) \<noteq> 0 \<and>
   outcome (DS18B20_GetTemp script_bus (False # False # map (bit (0x0191 :: uint16)) [0..<16], [])
            [0x28FF4A1B2C3D4E5F, 0] [0])
     = Some (Inr (0, [25]))"
proof -
  have c: "(0x28FF4A1B2C3D4E5F :: uint64) \<noteq> 0" by simp
  have "drop_bit 4 (0x0191 :: uint16) = 25" by simp
  with GetTemp_stores_logical_shift [OF c, of False False "0x0191" "[]" 0 "[]"] c
  show ?thesis by simp
qed

text \<open>
  C8 as stated fails for a negative temperature: for the raw value 0xFFF8 (-0.5 degrees)
  the value stored is 0x0FFF = 4095, and the arithmetic shift is 0xFFFF = -1.
\<close>

theorem GetTemp_negative_counterexample:
  "outcome (DS18B20_GetTemp script_bus (False # False # map (bit (0xFFF8 :: uint16)) [0..<16], [])
            [0x28FF4A1B2C3D4E5F, 0] [0])
     = Some (Inr (0, [0x0FFF])) \<and>
   signed_drop_bit 4 (0xFFF8 :: uint16) = 0xFFFF \<and> sint (0xFFF8 :: uint16) = - 8 \<and>
   sint (0xFFFF :: uint16) = - 1"
proof -
  have c: "(0x28FF4A1B2C3D4E5F :: uint64) \<noteq> 0" by simp
  have "drop_bit 4 (0xFFF8 :: uint16) = 0x0FFF" by simp
  with GetTemp_script [OF c, of False False "0xFFF8" "[]" 0 "[]"]
  show ?thesis by simp
qed

section \<open>The full search\<close>

lemma searchNext_returns_0: "fst (searchNext B w st) = 0"
  by (simp add: searchNext_def split: prod.splits bool.splits)

lemma Search_loop_exit:
  assumes "fst (searchDevices B w SEARCH_ROM st) = 0"
  shows "outcome (Search_loop wide B w st i c arr) = Some (Inr (0, arr))"
  using assms by (subst Search_loop.simps) (simp add: split_beta)

lemma sim_searchDevices_present:
  assumes "sim_devices (fst w) \<noteq> []" "\<not> done_flag st"
  shows "fst (searchDevices sim_bus w SEARCH_ROM st) = 0"
  using assms sim_start [OF refl assms(1)]
  by (simp add: searchDevices_def searchNext_returns_0)

lemma init_not_done: "\<not> done_flag (snd (onewireSearchInit uninitialised))"
  by (simp add: init_state)

text \<open>
  C10. On a bus with more devices than the caller's array has slots, \<^verbatim>\<open>DS18B20_Search\<close>
  returns without a store outside the array. The first reset sees a presence pulse,
  \<^verbatim>\<open>searchDevices\<close> returns the 0 of \<^verbatim>\<open>searchNext\<close>, and the loop stores only while the
  return value is not 0: the array is left as it was.
\<close>

theorem Search_never_stores_with_devices_present:
  assumes "length ROM_codes_array < length ds"
  shows "outcome (DS18B20_Search wide sim_bus (sim_world ds) ROM_codes_array)
           = Some (Inr (0, ROM_codes_array))"
proof -
  from assms have "sim_devices (fst (sim_world ds)) \<noteq> []"
    by (auto simp add: sim_world_def)
  from sim_searchDevices_present [OF this init_not_done] show ?thesis
    unfolding DS18B20_Search_def by (rule Search_loop_exit)
qed

theorem Search_never_stores_with_devices_present_witness:
  "length [0 :: uint64] < length [1, 2 :: uint64] \<and>
   outcome (DS18B20_Search arm_shift sim_bus (sim_world [1, 2]) [0]) = Some (Inr (0, [0]))"
  using Search_never_stores_with_devices_present [of "[0]" "[1, 2]" arm_shift] by simp

text \<open>
  On a bus without devices every reset of \<^verbatim>\<open>searchDevices\<close> returns 1 and the loop of
  \<^verbatim>\<open>DS18B20_Search\<close> takes that for a device: it stores and goes on.
\<close>

lemma sim_searchDevices_empty:
  assumes "sim_devices (fst w) = []" "\<not> done_flag st"
  shows "searchDevices sim_bus w SEARCH_ROM st
     = (1, (\<lparr>sim_devices = [], sim_mode = SimCommand []\<rparr>, snd w @ [EvReset True]), st)"
  using assms
  by (cases w, cases "fst w")
    (simp add: searchDevices_def DS18B20_Start_def sim_bus_def sim_reset_def)

lemma Search_loop_empty_bounds:
  assumes "sim_devices (fst w) = []" "\<not> done_flag st" "length arr < 256"
  shows "Search_loop wide sim_bus w st i c arr = Some (Inl OutOfBounds)"
  using assms
proof (induction n \<equiv> "length arr - unat i" arbitrary: w i c arr)
  case 0
  then have "\<not> unat i < length arr" by simp
  with 0 show ?case
    by (subst Search_loop.simps) (simp add: sim_searchDevices_empty)
next
  case (Suc n)
  then have lt: "unat i < length arr" by simp
  with Suc.prems have "unat i < 255" by simp
  then have u: "unat (i + 1) = unat i + 1"
    by (simp add: unat_word_ariths)
  let ?w = "(\<lparr>sim_devices = [], sim_mode = SimCommand []\<rparr>, snd w @ [EvReset True])"
  let ?arr = "arr[unat i := ROM_code_of wide (address st)]"
  have "Search_loop wide sim_bus ?w st (i + 1) (c + 1) ?arr = Some (Inl OutOfBounds)"
    using Suc.hyps(2) Suc.prems u by (intro Suc.hyps(1)) simp_all
  with lt Suc.prems show ?case
    by (subst Search_loop.simps) (simp add: sim_searchDevices_empty)
qed

lemma Search_loop_empty_diverges:
  assumes "Search_loop wide B w st i c arr = Some y"
  shows "B = sim_bus \<longrightarrow> \<not> (sim_devices (fst w) = [] \<and> \<not> done_flag st \<and> 256 \<le> length arr)"
proof (rule Search_loop.raw_induct
    [where P = "\<lambda>wide B w st i c arr y.
       B = sim_bus \<longrightarrow> \<not> (sim_devices (fst w) = [] \<and> \<not> done_flag st \<and> 256 \<le> length arr)",
     OF _ assms])
  fix f and wide :: wide_shift and B :: "sim_state bus" and w :: "sim_state world"
    and st :: onewire_search_state and i c :: uint8 and arr :: "uint64 list"
    and y :: "error + uint8 \<times> sim_state world \<times> uint64 list"
  assume IH: "\<And>wide B w st i c arr y. f wide B w st i c arr = Some y \<Longrightarrow>
      B = sim_bus \<longrightarrow> \<not> (sim_devices (fst w) = [] \<and> \<not> done_flag st \<and> 256 \<le> length arr)"
    and step: "(case searchDevices B w SEARCH_ROM st of
        (r, w', search_state') \<Rightarrow>
          if r \<noteq> 0
          then if unat i < length arr
               then f wide B w' search_state' (i + 1) (c + 1)
                      (arr[unat i := ROM_code_of wide (address search_state')])
               else Some (Inl OutOfBounds)
          else Some (Inr (0, w', arr))) = Some y"
  show "B = sim_bus \<longrightarrow> \<not> (sim_devices (fst w) = [] \<and> \<not> done_flag st \<and> 256 \<le> length arr)"
  proof (intro impI notI)
    assume B: "B = sim_bus"
      and a: "sim_devices (fst w) = [] \<and> \<not> done_flag st \<and> 256 \<le> length arr"
    have "unat (i :: uint8) < 2 ^ LENGTH(8)" by (rule unsigned_less)
    then have "unat i < 256" by simp
    with a have lt: "unat i < length arr" by simp
    let ?w = "(\<lparr>sim_devices = [], sim_mode = SimCommand []\<rparr>, snd w @ [EvReset True])"
    let ?arr = "arr[unat i := ROM_code_of wide (address st)]"
    from step have "f wide sim_bus ?w st (i + 1) (c + 1) ?arr = Some y"
      using a lt by (simp add: B sim_searchDevices_empty)
    from IH [OF this] a show False by simp
  qed
qed

text \<open>
  C3 fails on the code. On the empty bus \<^verbatim>\<open>DS18B20_Search\<close> does not report zero devices
  and return: with fewer than 256 slots it stores past the end of the array, otherwise
  it runs forever (the \<^verbatim>\<open>uint8_t\<close> index wraps). The part of the claim about the command
  byte holds: a cycle on the empty bus issues the reset and nothing else.
\<close>

theorem Search_empty_bus_never_returns:
  "DS18B20_Search wide sim_bus (sim_world []) ROM_codes_array
     = (if length ROM_codes_array < 256 then Some (Inl OutOfBounds) else None) \<and>
   searchDevices sim_bus (sim_world []) SEARCH_ROM (snd (onewireSearchInit uninitialised))
     = (1, (\<lparr>sim_devices = [], sim_mode = SimCommand []\<rparr>, [EvReset True]),
        snd (onewireSearchInit uninitialised))"
proof (intro conjI)
  show "searchDevices sim_bus (sim_world []) SEARCH_ROM (snd (onewireSearchInit uninitialised))
     = (1, (\<lparr>sim_devices = [], sim_mode = SimCommand []\<rparr>, [EvReset True]),
        snd (onewireSearchInit uninitialised))"
    using sim_searchDevices_empty [of "sim_world []" "snd (onewireSearchInit uninitialised)"]
      init_not_done by (simp add: sim_world_def)
  show "DS18B20_Search wide sim_bus (sim_world []) ROM_codes_array
     = (if length ROM_codes_array < 256 then Some (Inl OutOfBounds) else None)"
  proof (cases "length ROM_codes_array < 256")
  case True
  then show ?thesis
    unfolding DS18B20_Search_def
    by (simp add: Search_loop_empty_bounds sim_world_def init_not_done)
next
  case False
  have "DS18B20_Search wide sim_bus (sim_world []) ROM_codes_array \<noteq> Some y" for y
    unfolding DS18B20_Search_def
    using Search_loop_empty_diverges [of wide sim_bus "sim_world []"
        "snd (onewireSearchInit uninitialised)" 0 0 ROM_codes_array y] False init_not_done
    by (auto simp add: sim_world_def)
  with False show ?thesis by (cases "DS18B20_Search wide sim_bus (sim_world []) ROM_codes_array") auto
  qed
qed

section \<open>Faults\<close>

lemma search_bit_fields:
  assumes "search_bit B p w st l = (c, w', st', l')"
  shows "last_zero_branch st' = last_zero_branch st \<and> done_flag st' = done_flag st"
  using assms
  by (auto simp add: search_bit_def Let_def split: prod.splits if_splits)

lemma search_bit_False:
  assumes "search_bit B p w st l = (False, w', st', l')"
  shows "\<exists>tr. snd w' = tr @ [EvRead True, EvRead True]"
proof -
  obtain x1 e1 where r1: "read_sample B (fst w) = (x1, e1)" by (cases "read_sample B (fst w)")
  obtain x2 e2 where r2: "read_sample B e1 = (x2, e2)" by (cases "read_sample B e1")
  show ?thesis
  proof (cases x1; cases x2)
    assume "x1" "x2"
    with r1 r2 assms show ?thesis by (auto simp add: search_bit_fault)
  next
    assume "x1" "\<not> x2"
    with r1 r2 assms show ?thesis by (simp add: search_bit_one)
  next
    assume "\<not> x1" "x2"
    with r1 r2 assms show ?thesis by (simp add: search_bit_zero)
  next
    assume "\<not> x1" "\<not> x2"
    with r1 r2 assms show ?thesis by (simp add: search_bit_conflict)
  qed
qed

lemma search_bits_fields:
  "search_bits B p w st l = (c, w', st', l') \<Longrightarrow>
     last_zero_branch st' = last_zero_branch st \<and> done_flag st' = done_flag st \<and>
     (\<not> c \<longrightarrow> (\<exists>tr. snd w' = tr @ [EvRead True, EvRead True]))"
proof (induction B p w st l rule: search_bits.induct)
  case (1 B p w st l)
  show ?case
  proof (cases "p < 64")
    case False
    with "1.prems" show ?thesis by (simp add: search_bits.simps [of B p])
  next
    case True
    obtain c1 w1 st1 l1 where sb: "search_bit B p w st l = (c1, w1, st1, l1)"
      by (cases "search_bit B p w st l")
    show ?thesis
    proof (cases c1)
      case True
      with sb \<open>p < 64\<close> "1.prems" have "search_bits B (p + 1) w1 st1 l1 = (c, w', st', l')"
        by (simp add: search_bits.simps [of B p])
      from "1.IH" [OF \<open>p < 64\<close> sb [symmetric] _ _ _ this] True search_bit_fields [OF sb]
      show ?thesis by simp
    next
      case False
      with sb \<open>p < 64\<close> "1.prems" have "(c, w', st', l') = (False, w1, st1, l1)"
        by (simp add: search_bits.simps [of B p])
      with search_bit_fields [OF sb] search_bit_False [of B p w st l w1 st1 l1] sb False
      show ?thesis by auto
    qed
  qed
qed

lemma script_read_sample:
  "read_sample script_bus (b # rest) = (b, rest)"
  by (simp add: script_bus_def script_sample_def)

lemma script_search_fault:
  assumes "fst w = True # True # rest" "p < 64"
  shows "search_bits script_bus p w st l
     = (False, (rest, snd w @ [EvRead True, EvRead True]), st, l)"
  using assms
  by (intro search_bits_stop search_bit_fault [where ?e1.0 = "True # rest"])
    (simp_all add: script_read_sample)

lemma script_search_one:
  assumes "fst w = True # False # rest" "p < 64"
  shows "search_bits script_bus p w st l
     = search_bits script_bus (Suc p) (rest, snd w @ [EvRead True, EvRead False, EvWrite True])
         (st\<lparr>address := write_address_bit (address st) (p div 8) (p mod 8) 1\<rparr>) l"
proof -
  have "search_bit script_bus p w st l =
      (True, (write_slot script_bus True rest, snd w @ [EvRead True, EvRead False, EvWrite True]),
       st\<lparr>address := write_address_bit (address st) (p div 8) (p mod 8) 1\<rparr>, l)"
    using assms by (intro search_bit_one [where ?e1.0 = "False # rest"])
      (simp_all add: script_read_sample)
  then show ?thesis using assms(2)
    by (simp add: search_bits_step script_bus_def)
qed

lemma script_searchDevices:
  assumes "fst w = False # rest" "\<not> done_flag st"
  shows "\<exists>tr. searchDevices script_bus w command st = searchNext script_bus (rest, tr) st"
proof -
  have st: "DS18B20_Start script_bus w = (1, (rest, snd w @ [EvReset False]))"
    using assms(1) by (simp add: DS18B20_Start_def script_bus_def script_sample_def)
  have "fst (snd (DS18B20_writeData script_bus (rest, snd w @ [EvReset False]) command)) = rest"
    by simp
  then obtain tr where
    "snd (DS18B20_writeData script_bus (rest, snd w @ [EvReset False]) command) = (rest, tr)"
    by (metis prod.collapse)
  then have "searchDevices script_bus w command st = searchNext script_bus (rest, tr) st"
    using assms(2) by (simp add: searchDevices_def st)
  then show ?thesis by blast
qed

lemma script_cycle_fault_at_0:
  "map cycle_view (search_cycles 1 script_bus ([False, True, True], []) SEARCH_ROM
      (snd (onewireSearchInit uninitialised)))
   = [(0, [0, 0, 0, 0, 0, 0, 0, 0], False)]"
proof -
  let ?st = "snd (onewireSearchInit uninitialised)"
  obtain tr where sd: "searchDevices script_bus ([False, True, True], []) SEARCH_ROM ?st
    = searchNext script_bus ([True, True], tr) ?st"
    using script_searchDevices [of "([False, True, True], [])" "[True, True]" ?st SEARCH_ROM]
      init_not_done by auto
  have "search_bits script_bus 0 ([True, True], tr) ?st (- 1)
      = (False, ([], tr @ [EvRead True, EvRead True]), ?st, - 1)"
    using script_search_fault [of "([True, True], tr)" "[]" 0 ?st "- 1"] by simp
  then have "searchNext script_bus ([True, True], tr) ?st
      = (0, ([], tr @ [EvRead True, EvRead True]), ?st)"
    by (simp add: searchNext_def)
  with sd have "search_cycles 1 script_bus ([False, True, True], []) SEARCH_ROM ?st = [(0, ?st)]"
    by simp
  then show ?thesis
    by (simp add: cycle_view_def init_state)
qed

lemma script_cycle_fault_at_1:
  "map cycle_view (search_cycles 1 script_bus ([False, True, False, True, True], []) SEARCH_ROM
      (snd (onewireSearchInit uninitialised)))
   = [(0, [1, 0, 0, 0, 0, 0, 0, 0], False)]"
proof -
  let ?st = "snd (onewireSearchInit uninitialised)"
  let ?st1 = "?st\<lparr>address := write_address_bit (address ?st) (0 div 8) (0 mod 8) 1\<rparr>"
  obtain tr where sd: "searchDevices script_bus ([False, True, False, True, True], []) SEARCH_ROM ?st
    = searchNext script_bus ([True, False, True, True], tr) ?st"
    using script_searchDevices [of "([False, True, False, True, True], [])"
        "[True, False, True, True]" ?st SEARCH_ROM] init_not_done by auto
  have "search_bits script_bus 0 ([True, False, True, True], tr) ?st (- 1)
      = search_bits script_bus (Suc 0) ([True, True], tr @ [EvRead True, EvRead False, EvWrite True])
          ?st1 (- 1)"
    using script_search_one [of "([True, False, True, True], tr)" "[True, True]" 0 ?st "- 1"]
    by simp
  also have "\<dots> = (False, ([], (tr @ [EvRead True, EvRead False, EvWrite True])
        @ [EvRead True, EvRead True]), ?st1, - 1)"
    using script_search_fault [of "([True, True], tr @ [EvRead True, EvRead False, EvWrite True])"
        "[]" "Suc 0" ?st1 "- 1"] by simp
  finally have "searchNext script_bus ([True, False, True, True], tr) ?st
      = (0, ([], (tr @ [EvRead True, EvRead False, EvWrite True]) @ [EvRead True, EvRead True]), ?st1)"
    by (simp add: searchNext_def)
  with sd have "search_cycles 1 script_bus ([False, True, False, True, True], []) SEARCH_ROM ?st
      = [(0, ?st1)]"
    by simp
  then show ?thesis
    by (simp add: cycle_view_def init_state write_address_bit_nonzero)
qed

lemma single_device_cycles:
  "map cycle_view (search_cycles 2 sim_bus (sim_world [0x28]) SEARCH_ROM
      (snd (onewireSearchInit uninitialised)))
   = [(0, [0x28, 0, 0, 0, 0, 0, 0, 0], True), (1, [0x28, 0, 0, 0, 0, 0, 0, 0], True)]"
proof -
  have s: "sorted_wrt wire_less [0x28 :: uint64]" by simp
  have h: "\<not> replay_hazard [0x28]" using replay_hazard_four [of "[0x28]"] by auto
  have len: "length [0x28 :: uint64] + 1 = 2" by simp
  have r: "rom_bytes 0x28 = [0x28, 0, 0, 0, 0, 0, 0, 0]"
    by (simp add: rom_bytes_def upt_rec drop_bit_eq_div)
  from search_cycles_sorted [OF s _ _ h, of 1, unfolded len] show ?thesis
    by (simp add: r del: search_cycles.simps)
qed

text \<open>
  C5 fails on the code. A cycle that reads (1,1) at position 0 and a cycle that completes
  on a bus with one device both return 0 to the caller; only the call made after the
  search is complete returns 1.
\<close>

theorem fault_returns_like_success:
  "map cycle_view (search_cycles 1 script_bus ([False, True, True], []) SEARCH_ROM
      (snd (onewireSearchInit uninitialised)))
   = [(0, [0, 0, 0, 0, 0, 0, 0, 0], False)] \<and>
   map cycle_view (search_cycles 2 sim_bus (sim_world [0x28]) SEARCH_ROM
      (snd (onewireSearchInit uninitialised)))
   = [(0, [0x28, 0, 0, 0, 0, 0, 0, 0], True), (1, [0x28, 0, 0, 0, 0, 0, 0, 0], True)]"
  using script_cycle_fault_at_0 single_device_cycles by (intro conjI)

lemma search_bit_stops:
  assumes "search_bit B p w st l = (False, w', st', l')"
  shows "snd w' = snd w @ [EvRead True, EvRead True] \<and> st' = st"
proof -
  obtain x1 e1 where r1: "read_sample B (fst w) = (x1, e1)" by (cases "read_sample B (fst w)")
  obtain x2 e2 where r2: "read_sample B e1 = (x2, e2)" by (cases "read_sample B e1")
  show ?thesis
  proof (cases x1; cases x2)
    assume "x1" "x2"
    with r1 r2 assms show ?thesis by (auto simp add: search_bit_fault)
  next
    assume "x1" "\<not> x2"
    with r1 r2 assms show ?thesis by (simp add: search_bit_one)
  next
    assume "\<not> x1" "x2"
    with r1 r2 assms show ?thesis by (simp add: search_bit_zero)
  next
    assume "\<not> x1" "\<not> x2"
    with r1 r2 assms show ?thesis by (simp add: search_bit_conflict)
  qed
qed

lemma same_byte_below:
  fixes p q :: nat
  assumes "q < p" "q div 8 = p div 8"
  shows "q mod 8 \<noteq> 2 * (p mod 8)"
proof
  assume "q mod 8 = 2 * (p mod 8)"
  then have "p mod 8 \<le> q mod 8" by simp
  with assms(2) have "p \<le> q"
    by (metis add_le_cancel_left div_mult_mod_eq)
  with assms(1) show False by simp
qed

lemma addr_bit_conflict_choice:
  assumes "length (address st) = 8" "p < 64" "q \<le> p"
  shows "addr_bit (write_address_bit (address st) (p div 8) (p mod 8) (conflict_choice st p)) q
     \<longleftrightarrow> (if q = p then conflict_choice st p \<noteq> 0 else addr_bit (address st) q)"
proof -
  have q: "q < 64" using assms by simp
  define v where "v = address st ! (p div 8) AND push_bit (p mod 8) 1"
  have v: "v \<noteq> 0 \<longleftrightarrow> addr_bit (address st) p"
    unfolding v_def by (rule replay_value_nonzero)
  have "conflict_choice st p = 1 \<or> conflict_choice st p = 0 \<or>
      (conflict_choice st p = v \<and> addr_bit (address st) p)"
    unfolding conflict_choice_def v_def [symmetric] using v by (cases "v = 0") simp_all
  then consider (one) "conflict_choice st p = 1"
    | (zero) "conflict_choice st p = 0"
    | (replay) "conflict_choice st p = address st ! (p div 8) AND push_bit (p mod 8) 1"
        "addr_bit (address st) p"
    unfolding v_def by blast
  then show ?thesis
  proof cases
    case one
    then show ?thesis using addr_bit_write_one [OF assms(1,2) q] by auto
  next
    case zero
    then show ?thesis using addr_bit_write_zero [OF assms(1,2) q] by auto
  next
    case replay
    have nz: "conflict_choice st p \<noteq> 0"
      using replay replay_value_nonzero [of "address st" p] by simp
    show ?thesis
    proof (cases "q = p")
      case True
      with replay nz show ?thesis
        using addr_bit_write_replay [OF assms(1,2) q replay(2)] by simp
    next
      case False
      with assms(3) have "q < p" by simp
      with same_byte_below [of q p] replay show ?thesis
        using addr_bit_write_replay [OF assms(1,2) q replay(2)] False by auto
    qed
  qed
qed

lemma search_bit_continues:
  assumes "search_bit B p w st l = (True, w', st', l')" "length (address st) = 8" "p < 64"
  shows "(\<exists>r1 r2. snd w' = snd w @ [EvRead r1, EvRead r2, EvWrite (addr_bit (address st') p)]) \<and>
         (\<forall>q<p. addr_bit (address st') q = addr_bit (address st) q) \<and>
         length (address st') = 8"
proof -
  obtain x1 e1 where r1: "read_sample B (fst w) = (x1, e1)" by (cases "read_sample B (fst w)")
  obtain x2 e2 where r2: "read_sample B e1 = (x2, e2)" by (cases "read_sample B e1")
  have lt: "q < p \<Longrightarrow> q < 64" for q using assms(3) by simp
  show ?thesis
  proof (cases x1; cases x2)
    assume "x1" "x2"
    with r1 r2 assms show ?thesis by (auto simp add: search_bit_fault)
  next
    assume "x1" "\<not> x2"
    with r1 r2 assms(1) have
      "snd w' = snd w @ [EvRead True, EvRead False, EvWrite True]"
      "address st' = write_address_bit (address st) (p div 8) (p mod 8) 1"
      by (auto simp add: search_bit_one)
    then show ?thesis
      using addr_bit_write_one [OF assms(2,3)] assms(2,3) lt by auto
  next
    assume "\<not> x1" "x2"
    with r1 r2 assms(1) have
      "snd w' = snd w @ [EvRead False, EvRead True, EvWrite False]"
      "address st' = write_address_bit (address st) (p div 8) (p mod 8) 0"
      by (auto simp add: search_bit_zero)
    then show ?thesis
      using addr_bit_write_zero [OF assms(2,3)] assms(2,3) lt by auto
  next
    assume "\<not> x1" "\<not> x2"
    with r1 r2 assms(1) have
      "snd w' = snd w @ [EvRead False, EvRead False, EvWrite (conflict_choice st p \<noteq> 0)]"
      "address st' = write_address_bit (address st) (p div 8) (p mod 8) (conflict_choice st p)"
      by (auto simp add: search_bit_conflict)
    then show ?thesis
      using addr_bit_conflict_choice [OF assms(2,3)] assms(2) by auto
  qed
qed

lemma written_bits_simps [simp]:
  "written_bits [] = []"
  "written_bits (EvWrite b # tr) = b # written_bits tr"
  "written_bits (EvRead r # tr) = written_bits tr"
  "written_bits (EvReset r # tr) = written_bits tr"
  "written_bits (tr @ tr') = written_bits tr @ written_bits tr'"
  by (simp_all add: written_bits_def)

lemma search_bits_fault_trace:
  "search_bits B p w st l = (False, w', st', l') \<Longrightarrow> length (address st) = 8 \<Longrightarrow>
     (\<exists>tr f. snd w' = snd w @ tr @ [EvRead True, EvRead True] \<and> p \<le> f \<and> f < 64 \<and>
        length tr = 3 * (f - p) \<and>
        written_bits tr = map (addr_bit (address st')) [p..<f]) \<and>
     (\<forall>q<p. addr_bit (address st') q = addr_bit (address st) q)"
proof (induction B p w st l rule: search_bits.induct)
  case (1 B p w st l)
  show ?case
  proof (cases "p < 64")
    case False
    with "1.prems" show ?thesis by (simp add: search_bits.simps [of B p])
  next
    case True
    obtain c1 w1 st1 l1 where sb: "search_bit B p w st l = (c1, w1, st1, l1)"
      by (cases "search_bit B p w st l")
    show ?thesis
    proof (cases c1)
      case c: True
      with sb \<open>p < 64\<close> "1.prems" have rest: "search_bits B (p + 1) w1 st1 l1 = (False, w', st', l')"
        by (simp add: search_bits.simps [of B p])
      from sb c have sb': "search_bit B p w st l = (True, w1, st1, l1)" by simp
      from search_bit_continues [OF sb' "1.prems"(2) \<open>p < 64\<close>]
      obtain r1 r2 where
        w1: "snd w1 = snd w @ [EvRead r1, EvRead r2, EvWrite (addr_bit (address st1) p)]"
        and keep: "\<forall>q<p. addr_bit (address st1) q = addr_bit (address st) q"
        and len: "length (address st1) = 8"
        by blast
      from "1.IH" [OF \<open>p < 64\<close> sb [symmetric] _ _ _ rest len] c
      obtain tr f where
        w': "snd w' = snd w1 @ tr @ [EvRead True, EvRead True]"
        and f: "p + 1 \<le> f" "f < 64"
        and lt: "length tr = 3 * (f - (p + 1))"
        and wb: "written_bits tr = map (addr_bit (address st')) [p + 1..<f]"
        and keep': "\<forall>q<p + 1. addr_bit (address st') q = addr_bit (address st1) q"
        by auto
      let ?tr = "[EvRead r1, EvRead r2, EvWrite (addr_bit (address st1) p)] @ tr"
      have "snd w' = snd w @ ?tr @ [EvRead True, EvRead True]"
        using w' w1 by simp
      moreover have "written_bits ?tr = map (addr_bit (address st')) [p..<f]"
        using wb keep' f by (simp add: upt_conv_Cons)
      moreover have "\<forall>q<p. addr_bit (address st') q = addr_bit (address st) q"
        using keep keep' by simp
      moreover have "length ?tr = 3 * (f - p)"
        using lt f by simp
      ultimately show ?thesis using f by (intro conjI exI [of _ ?tr] exI [of _ f]) simp_all
    next
      case c: False
      with sb \<open>p < 64\<close> "1.prems" have e: "(False, w', st', l') = (False, w1, st1, l1)"
        by (simp add: search_bits.simps [of B p])
      with search_bit_stops [of B p w st l w1 st1 l1] sb c
      have "snd w' = snd w @ [] @ [EvRead True, EvRead True]" "st' = st"
        by auto
      with \<open>p < 64\<close> show ?thesis
        by (intro conjI exI [of _ "[]"] exI [of _ p]) simp_all
    qed
  qed
qed

lemma searchNext_fault:
  assumes "\<not> fst (search_bits B 0 w state (- 1))" and "length (address state) = 8"
  shows "last_zero_branch (snd (snd (searchNext B w state))) = last_zero_branch state \<and>
         done_flag (snd (snd (searchNext B w state))) = done_flag state \<and>
         (\<exists>tr f. snd (fst (snd (searchNext B w state))) = snd w @ tr @ [EvRead True, EvRead True] \<and>
            f < 64 \<and> length tr = 3 * f \<and>
            written_bits tr = map (addr_bit (address (snd (snd (searchNext B w state))))) [0..<f])"
proof -
  obtain c w' st' l' where sb: "search_bits B 0 w state (- 1) = (c, w', st', l')"
    by (cases "search_bits B 0 w state (- 1)")
  with assms have c: "\<not> c" by simp
  from sb c have sb': "search_bits B 0 w state (- 1) = (False, w', st', l')" by simp
  from search_bits_fields [OF sb] search_bits_fault_trace [OF sb' assms(2)] c show ?thesis
    by (simp add: searchNext_def sb)
qed

text \<open>
  C6 (amended). A search cycle that reads (1,1) stops there. Its bus trace is that of
  \<open>f\<close> complete positions, three slots each, followed by the two reads of 1 and nothing
  else; \<^verbatim>\<open>last_zero_branch\<close> and \<^verbatim>\<open>done\<close> are as they were. The address is not restored:
  at every position before the fault it holds the bit that was written to the bus in
  this cycle.
\<close>

theorem fault_aborts_without_rollback:
  assumes "\<not> fst (search_bits B 0 w state (- 1))" and "length (address state) = 8"
  shows "fst (searchNext B w state) = 0 \<and>
         last_zero_branch (snd (snd (searchNext B w state))) = last_zero_branch state \<and>
         done_flag (snd (snd (searchNext B w state))) = done_flag state \<and>
         (\<exists>tr f. snd (fst (snd (searchNext B w state))) = snd w @ tr @ [EvRead True, EvRead True] \<and>
            f < 64 \<and> length tr = 3 * f \<and>
            written_bits tr = map (addr_bit (address (snd (snd (searchNext B w state))))) [0..<f])"
  using searchNext_fault [OF assms] searchNext_returns_0 [of B w state]
  by (intro conjI) simp_all

theorem fault_aborts_without_rollback_witness:
  "\<not> fst (search_bits script_bus 0 ([True, False, True, True], [])
          (snd (onewireSearchInit uninitialised)) (- 1)) \<and>
   length (address (snd (onewireSearchInit uninitialised))) = 8 \<and>
   searchNext script_bus ([True, False, True, True], []) (snd (onewireSearchInit uninitialised))
     = (0, ([], [EvRead True, EvRead False, EvWrite True, EvRead True, EvRead True]),
        \<lparr>last_zero_branch = - 1, done_flag = False, address = [1, 0, 0, 0, 0, 0, 0, 0]\<rparr>) \<and>
   (\<exists>tr f. [EvRead True, EvRead False, EvWrite True, EvRead True, EvRead True]
              = [] @ tr @ [EvRead True, EvRead True] \<and>
            f < 64 \<and> length tr = 3 * f \<and>
            written_bits tr = map (addr_bit [1, 0, 0, 0, 0, 0, 0, 0]) [0..<f])"
proof -
  let ?st = "snd (onewireSearchInit uninitialised)"
  let ?st1 = "?st\<lparr>address := write_address_bit (address ?st) (0 div 8) (0 mod 8) 1\<rparr>"
  have "search_bits script_bus 0 ([True, False, True, True], []) ?st (- 1)
      = search_bits script_bus (Suc 0) ([True, True], [] @ [EvRead True, EvRead False, EvWrite True])
          ?st1 (- 1)"
    using script_search_one [of "([True, False, True, True], [])" "[True, True]" 0 ?st "- 1"]
    by simp
  also have "\<dots> = (False, ([], ([] @ [EvRead True, EvRead False, EvWrite True])
        @ [EvRead True, EvRead True]), ?st1, - 1)"
    using script_search_fault [of "([True, True], [] @ [EvRead True, EvRead False, EvWrite True])"
        "[]" "Suc 0" ?st1 "- 1"] by simp
  finally have sb: "search_bits script_bus 0 ([True, False, True, True], []) ?st (- 1)
      = (False, ([], [EvRead True, EvRead False, EvWrite True, EvRead True, EvRead True]), ?st1, - 1)"
    by simp
  then have h1: "\<not> fst (search_bits script_bus 0 ([True, False, True, True], []) ?st (- 1))"
    by simp
  have h2: "length (address ?st) = 8"
    by (simp add: init_state)
  have sn: "searchNext script_bus ([True, False, True, True], []) ?st
     = (0, ([], [EvRead True, EvRead False, EvWrite True, EvRead True, EvRead True]),
        \<lparr>last_zero_branch = - 1, done_flag = False, address = [1, 0, 0, 0, 0, 0, 0, 0]\<rparr>)"
    by (simp add: searchNext_def sb) (simp add: init_state write_address_bit_nonzero)
  from fault_aborts_without_rollback [OF h1 h2] h1 h2 sn show ?thesis
    by simp
qed

text \<open>
  C6 as stated fails in both halves. A cycle that reads a 1 at position 0 and (1,1) at
  position 1 returns with bit 0 of the address set, although the address was all zero
  before. A read on a line that stays high through both resets and all read slots
  stores the entry 0x0FFF.
\<close>

theorem fault_keeps_partial_results_counterexample:
  "address (snd (onewireSearchInit uninitialised)) = [0, 0, 0, 0, 0, 0, 0, 0] \<and>
   map cycle_view (search_cycles 1 script_bus ([False, True, False, True, True], []) SEARCH_ROM
      (snd (onewireSearchInit uninitialised)))
   = [(0, [1, 0, 0, 0, 0, 0, 0, 0], False)] \<and>
   fst (DS18B20_Start script_bus (True # True # map (bit (0xFFFF :: uint16)) [0..<16], [])) = 0 \<and>
   outcome (DS18B20_GetTemp script_bus (True # True # map (bit (0xFFFF :: uint16)) [0..<16], [])
            [0x28FF4A1B2C3D4E5F, 0] [0])
     = Some (Inr (0, [0x0FFF]))"
proof -
  have c: "(0x28FF4A1B2C3D4E5F :: uint64) \<noteq> 0" by simp
  have d: "drop_bit 4 (0xFFFF :: uint16) = 0x0FFF" by simp
  have "fst (DS18B20_Start script_bus (True # True # map (bit (0xFFFF :: uint16)) [0..<16], [])) = 0"
    by (simp add: DS18B20_Start_def script_bus_def script_sample_def)
  moreover have "outcome (DS18B20_GetTemp script_bus
      (True # True # map (bit (0xFFFF :: uint16)) [0..<16], []) [0x28FF4A1B2C3D4E5F, 0] [0])
     = Some (Inr (0, [0x0FFF]))"
    using GetTemp_script [OF c, of True True "0xFFFF" "[]" 0 "[]"] by (simp only: d)
  ultimately show ?thesis
    using script_cycle_fault_at_1 by (simp add: init_state del: search_cycles.simps upt_Suc)
qed

section \<open>What the full search returns and stores\<close>






lemma Search_sim_present:
  assumes "ds \<noteq> []"
  shows "outcome (DS18B20_Search wide sim_bus (sim_world ds) arr) = Some (Inr (0, arr))"
proof -
  from assms have "sim_devices (fst (sim_world ds)) \<noteq> []"
    by (simp add: sim_world_def)
  from sim_searchDevices_present [OF this init_not_done] show ?thesis
    unfolding DS18B20_Search_def by (rule Search_loop_exit)
qed






lemma msb_first_value_bytes:
  "msb_first_value [a0, a1, a2, a3, a4, a5, a6, a7]
     = unat a0 * 2 ^ 56 + unat a1 * 2 ^ 48 + unat a2 * 2 ^ 40 + unat a3 * 2 ^ 32
       + unat a4 * 2 ^ 24 + unat a5 * 2 ^ 16 + unat a6 * 2 ^ 8 + unat a7"
  by (simp add: msb_first_value_def)




text \<open>
  C4 fails on the code. On a bus with the single device of family code 0x28 the first
  search cycle discovers the device and returns 0; the loop of \<^verbatim>\<open>DS18B20_Search\<close> takes
  that 0 as its exit condition, so the function returns 0 with both slots of the array as
  they were: the discovered address is not stored and no count is returned.
\<close>

theorem Search_single_device_not_stored:
  "map cycle_view (search_cycles 2 sim_bus (sim_world [0x28]) SEARCH_ROM
      (snd (onewireSearchInit uninitialised)))
   = [(0, [0x28, 0, 0, 0, 0, 0, 0, 0], True), (1, [0x28, 0, 0, 0, 0, 0, 0, 0], True)] \<and>
   outcome (DS18B20_Search arm_shift sim_bus (sim_world [0x28]) [0, 0]) = Some (Inr (0, [0, 0]))"
  using single_device_cycles Search_sim_present [of "[0x28]" arm_shift "[0, 0]"]
  by (intro conjI) simp_all

section \<open>The replay of the previous choices\<close>

lemma bus4_filter_3: "filter (\<lambda>d. agree 3 d 6) bus4 = [6]"
  by (simp add: agree_def)

lemma bus4_reads_0:
  "list_all (\<lambda>d. bit d 0) bus4 = False" "list_all (\<lambda>d. \<not> bit d 0) bus4 = True"
  "filter (\<lambda>d. bit d 0 = False) bus4 = bus4"
  by simp_all

lemma bus4_reads_1:
  "list_all (\<lambda>d. bit d 1) bus4 = False" "list_all (\<lambda>d. \<not> bit d 1) bus4 = False"
  "filter (\<lambda>d. bit d 1 = True) bus4 = [2, 10, 6]"
  by simp_all

lemma bus4_reads_2:
  "list_all (\<lambda>d. bit d 2) [2, 10, 6 :: uint64] = False"
  "list_all (\<lambda>d. \<not> bit d 2) [2, 10, 6 :: uint64] = False"
  "filter (\<lambda>d. bit d 2 = True) [2, 10, 6 :: uint64] = [6]"
  by simp_all

lemma bus4_first_differences:
  "agree 1 2 (0 :: uint64)" "bit (2 :: uint64) 1"
  "agree 1 10 (0 :: uint64)" "bit (10 :: uint64) 1"
  "agree 1 6 (0 :: uint64)" "bit (6 :: uint64) 1"
  "agree 3 10 (2 :: uint64)" "bit (10 :: uint64) 3" "\<not> bit (2 :: uint64) 3"
  "agree 2 6 (2 :: uint64)" "bit (6 :: uint64) 2" "\<not> bit (2 :: uint64) 2"
  "\<not> bit (0 :: uint64) 1"
  by (simp_all add: agree_def)

lemma sim_searchDevices_enter:
  assumes "sim_devices (fst w) = ds" "ds \<noteq> []" "\<not> done_flag st"
  shows "\<exists>tr. searchDevices sim_bus w SEARCH_ROM st
          = searchNext sim_bus (\<lparr>sim_devices = ds, sim_mode = SimSearch 0 0 ds\<rparr>, tr) st"
  using assms(3) by (auto simp add: searchDevices_def sim_start [OF assms(1,2)] sim_command_search)

lemma sim_step_zero:
  assumes "p < 64" and "fst w = \<lparr>sim_devices = ds, sim_mode = SimSearch p 0 act\<rparr>"
    and "\<not> list_all (\<lambda>d. bit d p) act" and "list_all (\<lambda>d. \<not> bit d p) act"
  shows "\<exists>tr. search_bits sim_bus p w st l
     = search_bits sim_bus (p + 1)
         (\<lparr>sim_devices = ds, sim_mode = SimSearch (p + 1) 0 (filter (\<lambda>d. bit d p = False) act)\<rparr>, tr)
         (st\<lparr>address := write_address_bit (address st) (p div 8) (p mod 8) 0\<rparr>) l"
proof -
  have "search_bit sim_bus p w st l =
     (True, (write_slot sim_bus False \<lparr>sim_devices = ds, sim_mode = SimSearch p 2 act\<rparr>,
             snd w @ [EvRead False, EvRead True, EvWrite False]),
      st\<lparr>address := write_address_bit (address st) (p div 8) (p mod 8) 0\<rparr>, l)"
    using assms
    by (intro search_bit_zero [where ?e1.0 = "\<lparr>sim_devices = ds, sim_mode = SimSearch p 1 act\<rparr>"])
      (simp_all only: sim_read_bit sim_read_complement)
  from search_bits_step [OF assms(1) this] show ?thesis
    by (simp only: sim_write_search Suc_eq_plus1) blast
qed

lemma sim_step_conflict:
  assumes "p < 64" and "fst w = \<lparr>sim_devices = ds, sim_mode = SimSearch p 0 act\<rparr>"
    and "\<not> list_all (\<lambda>d. bit d p) act" and "\<not> list_all (\<lambda>d. \<not> bit d p) act"
  shows "\<exists>tr. search_bits sim_bus p w st l
     = search_bits sim_bus (p + 1)
         (\<lparr>sim_devices = ds, sim_mode = SimSearch (p + 1) 0
             (filter (\<lambda>d. bit d p = (conflict_choice st p \<noteq> 0)) act)\<rparr>, tr)
         (st\<lparr>address := write_address_bit (address st) (p div 8) (p mod 8) (conflict_choice st p)\<rparr>)
         (if conflict_choice st p = 0 then int p else l)"
proof -
  have "search_bit sim_bus p w st l =
     (True, (write_slot sim_bus (conflict_choice st p \<noteq> 0)
               \<lparr>sim_devices = ds, sim_mode = SimSearch p 2 act\<rparr>,
             snd w @ [EvRead False, EvRead False, EvWrite (conflict_choice st p \<noteq> 0)]),
      st\<lparr>address := write_address_bit (address st) (p div 8) (p mod 8) (conflict_choice st p)\<rparr>,
      if conflict_choice st p = 0 then int p else l)"
    using assms
    by (intro search_bit_conflict [where ?e1.0 = "\<lparr>sim_devices = ds, sim_mode = SimSearch p 1 act\<rparr>"])
      (simp_all only: sim_read_bit sim_read_complement)
  from search_bits_step [OF assms(1) this] show ?thesis
    by (simp only: sim_write_search Suc_eq_plus1) blast
qed

lemma last_zero_none:
  assumes "\<forall>q\<ge>p. \<not> zero_branch ds y q"
  shows "last_zero ds y p l = l"
proof -
  have "fold (\<lambda>q l. if zero_branch ds y q then int q else l) qs l = l"
    if "\<forall>q\<in>set qs. \<not> zero_branch ds y q" for qs
    using that by (induction qs) simp_all
  with assms show ?thesis by (simp add: last_zero_def)
qed

lemma cycle_next_local:
  assumes ds: "sim_devices (fst w) = ds"
    and x: "discovered ds x st" and suc: "successor ds x y"
    and nh: "no_hazard ds (last_zero_branch st) y"
  shows "\<exists>w' st'. searchDevices sim_bus w SEARCH_ROM st = (0, w', st') \<and>
           sim_devices (fst w') = ds \<and> discovered ds y st'"
proof -
  from suc have "\<exists>d\<in>set ds. wire_less x d" by (auto simp add: successor_def)
  with x obtain m where xs: "x \<in> set ds" and a: "address st = rom_bytes x"
    and nd: "\<not> done_flag st" and L: "last_zero_branch st = int m"
    and m: "zero_branch ds x m" "\<forall>q. zero_branch ds x q \<longrightarrow> q \<le> m"
    by (auto simp add: discovered_def)
  from xs have ne: "ds \<noteq> []" by auto
  have ag: "agree m x y" using successor_branch [OF suc xs m] by simp
  have m64: "m < 64" using m(1) by (rule zero_branch_less_64)
  have I3: "\<forall>q. int q < last_zero_branch st \<and> branch ds y q
              \<longrightarrow> addr_bit (address st) q = bit y q"
    using ag m64 agree_bit by (auto simp add: L a addr_bit_rom_bytes)
  show ?thesis
    using nd successor_target [OF suc xs m] nh I3
    by (intro cycle_discovers [OF ds ne]) (simp_all add: L a)
qed

lemma bus4_wire_less:
  "wire_less (0 :: uint64) 10" "wire_less (0 :: uint64) 6"
  "wire_less (2 :: uint64) 10" "wire_less (2 :: uint64) 6"
proof -
  show "wire_less (0 :: uint64) 10" unfolding wire_less_iff
    by (rule exI [of _ 1]) (simp add: agree_def)
  show "wire_less (0 :: uint64) 6" unfolding wire_less_iff
    by (rule exI [of _ 1]) (simp add: agree_def)
  show "wire_less (2 :: uint64) 10" unfolding wire_less_iff
    by (rule exI [of _ 3]) (simp add: agree_def)
  show "wire_less (2 :: uint64) 6" unfolding wire_less_iff
    by (rule exI [of _ 2]) (simp add: agree_def)
qed

lemma bus4_least: "least bus4 0"
  by (simp add: least_def wire_less_0_2 bus4_wire_less)

lemma bus4_successor: "successor bus4 0 2"
  by (simp add: successor_def wire_less_0_2 bus4_wire_less)

lemma bus4_zero_branch_0:
  assumes "zero_branch bus4 0 m"
  shows "m = 1"
proof -
  from assms obtain d where d: "d \<in> set bus4" "agree m d 0" "bit d m \<noteq> bit (0 :: uint64) m"
    unfolding zero_branch_def branch_def by blast
  from d(3) have "d \<noteq> 0" by blast
  moreover from d(1) have "d = 0 \<or> d = 2 \<or> d = 10 \<or> d = 6" by simp
  ultimately have "agree 1 d 0 \<and> bit d 1 \<noteq> bit (0 :: uint64) 1"
    using bus4_first_differences by blast
  with d(2,3) show ?thesis using difference_unique by blast
qed

lemma bus4_zero_branch_2:
  assumes "zero_branch bus4 2 m"
  shows "m \<le> 3"
proof -
  from assms obtain d where d: "d \<in> set bus4" "agree m d 2" "bit d m \<noteq> bit (2 :: uint64) m"
    unfolding zero_branch_def branch_def by blast
  from d(3) have "d \<noteq> 2" by blast
  moreover from d(1) have "d = 0 \<or> d = 2 \<or> d = 10 \<or> d = 6" by simp
  ultimately consider "d = 0" | "d = 10" | "d = 6" by blast
  then show ?thesis
  proof cases
    case 1
    have "agree 1 0 (2 :: uint64)" "bit (0 :: uint64) 1 \<noteq> bit (2 :: uint64) 1"
      by (simp_all add: agree_def)
    with d(2,3) 1 have "m = 1" using difference_unique by blast
    then show ?thesis by simp
  next
    case 2
    have "agree 3 10 (2 :: uint64)" "bit (10 :: uint64) 3 \<noteq> bit (2 :: uint64) 3"
      by (simp_all add: agree_def)
    with d(2,3) 2 have "m = 3" using difference_unique by blast
    then show ?thesis by simp
  next
    case 3
    have "agree 2 6 (2 :: uint64)" "bit (6 :: uint64) 2 \<noteq> bit (2 :: uint64) 2"
      by (simp_all add: agree_def)
    with d(2,3) 3 have "m = 2" using difference_unique by blast
    then show ?thesis by simp
  qed
qed

lemma bus4_zero_branch_2_3: "zero_branch bus4 2 3"
  unfolding zero_branch_iff by (rule bexI [of _ 10]) (simp_all add: agree_def)

lemma bus4_no_branch_6:
  assumes "3 \<le> q"
  shows "\<not> branch bus4 6 q"
proof
  assume "branch bus4 6 q"
  then obtain d where d: "d \<in> set bus4" "agree q d 6" "bit d q \<noteq> bit (6 :: uint64) q"
    unfolding branch_def by blast
  from d(2) assms have "agree 3 d 6" by (rule agree_mono)
  with d(1) have "d \<in> set (filter (\<lambda>d. agree 3 d 6) bus4)"
    unfolding set_filter by blast
  then have "d = 6" by (simp only: bus4_filter_3) simp
  with d(3) show False by blast
qed

lemma rom_bytes_6: "rom_bytes 6 = [6, 0, 0, 0, 0, 0, 0, 0]"
  by (simp add: rom_bytes_def upt_rec drop_bit_eq_div)

lemma state_eqI:
  "last_zero_branch st = L \<Longrightarrow> done_flag st = d \<Longrightarrow> address st = a \<Longrightarrow>
     st = \<lparr>last_zero_branch = L, done_flag = d, address = a\<rparr>"
  by (cases st) simp

lemma bus4_cycle_1:
  "\<exists>w1. searchDevices sim_bus (sim_world bus4) SEARCH_ROM (snd (onewireSearchInit uninitialised))
      = (0, w1, \<lparr>last_zero_branch = 1, done_flag = False, address = [0, 0, 0, 0, 0, 0, 0, 0]\<rparr>)
     \<and> sim_devices (fst w1) = bus4
     \<and> discovered bus4 0 \<lparr>last_zero_branch = 1, done_flag = False, address = [0, 0, 0, 0, 0, 0, 0, 0]\<rparr>"
proof -
  have ds: "sim_devices (fst (sim_world bus4)) = bus4" by (simp add: sim_world_def)
  have ne: "bus4 \<noteq> []" by simp
  from cycle_first [OF ds ne bus4_least] obtain w1 st1 where
    c: "searchDevices sim_bus (sim_world bus4) SEARCH_ROM (snd (onewireSearchInit uninitialised))
      = (0, w1, st1)" "sim_devices (fst w1) = bus4" and d: "discovered bus4 0 st1"
    by blast
  have g: "\<exists>d\<in>set bus4. wire_less 0 d" using wire_less_0_2 by (intro bexI [of _ 2]) simp_all
  from d obtain m where m: "\<not> done_flag st1" "last_zero_branch st1 = int m" "zero_branch bus4 0 m"
    and a: "address st1 = rom_bytes 0"
    unfolding discovered_def if_P [OF g] by blast
  from bus4_zero_branch_0 [OF m(3)] m(1,2) a
  have "st1 = \<lparr>last_zero_branch = 1, done_flag = False, address = [0, 0, 0, 0, 0, 0, 0, 0]\<rparr>"
    by (intro state_eqI) (simp_all add: rom_bytes_small)
  with c d show ?thesis by blast
qed

lemma bus4_cycle_2:
  assumes "sim_devices (fst w1) = bus4"
    and "discovered bus4 0 \<lparr>last_zero_branch = 1, done_flag = False, address = [0, 0, 0, 0, 0, 0, 0, 0]\<rparr>"
  shows "\<exists>w2. searchDevices sim_bus w1 SEARCH_ROM
        \<lparr>last_zero_branch = 1, done_flag = False, address = [0, 0, 0, 0, 0, 0, 0, 0]\<rparr>
      = (0, w2, \<lparr>last_zero_branch = 3, done_flag = False, address = [2, 0, 0, 0, 0, 0, 0, 0]\<rparr>)
     \<and> sim_devices (fst w2) = bus4"
proof -
  let ?st1 = "\<lparr>last_zero_branch = 1, done_flag = False, address = [0, 0, 0, 0, 0, 0, 0, 0]\<rparr>"
  have nh: "no_hazard bus4 (last_zero_branch ?st1) 2"
    unfolding no_hazard_def
  proof (intro allI impI, elim conjE)
    fix p q :: nat
    assume "int q < last_zero_branch ?st1" "q mod 8 = 2 * (p mod 8)" "0 < p mod 8"
    then have "q = 0" "q mod 8 \<noteq> 0" by simp_all
    then show "bit (2 :: uint64) q" by simp
  qed
  from cycle_next_local [OF assms(1) assms(2) bus4_successor nh] obtain w2 st2 where
    c: "searchDevices sim_bus w1 SEARCH_ROM ?st1 = (0, w2, st2)" "sim_devices (fst w2) = bus4"
    and d: "discovered bus4 2 st2"
    by blast
  have g: "\<exists>d\<in>set bus4. wire_less 2 d" using bus4_wire_less(3) by (intro bexI [of _ 10]) simp_all
  from d obtain m where m: "\<not> done_flag st2" "last_zero_branch st2 = int m" "zero_branch bus4 2 m"
    "\<forall>q. zero_branch bus4 2 q \<longrightarrow> q \<le> m"
    and a: "address st2 = rom_bytes 2"
    unfolding discovered_def if_P [OF g] by blast
  from m(4) bus4_zero_branch_2_3 have "3 \<le> m" by blast
  with bus4_zero_branch_2 [OF m(3)] have "m = 3" by simp
  with m(1,2) a
  have "st2 = \<lparr>last_zero_branch = 3, done_flag = False, address = [2, 0, 0, 0, 0, 0, 0, 0]\<rparr>"
    by (intro state_eqI) (simp_all add: rom_bytes_small)
  with c show ?thesis by blast
qed

lemma bus4_writes:
  "write_address_bit [2, 0, 0, 0, 0, 0, 0, 0] 0 0 0 = [2, 0, 0, 0, 0, 0, 0, 0]"
  "write_address_bit [2, 0, 0, 0, 0, 0, 0, 0] 0 1 2 = [6, 0, 0, 0, 0, 0, 0, 0]"
  "write_address_bit [6, 0, 0, 0, 0, 0, 0, 0] 0 2 4 = [22, 0, 0, 0, 0, 0, 0, 0]"
  "write_address_bit [2, 0, 0, 0, 0, 0, 0, 0] 0 (Suc 0) 2 = [6, 0, 0, 0, 0, 0, 0, 0]"
  by (simp_all add: write_address_bit_zero write_address_bit_nonzero)

lemma bus4_choices:
  "conflict_choice \<lparr>last_zero_branch = 3, done_flag = False, address = [2, 0, 0, 0, 0, 0, 0, 0]\<rparr> 1 = 2"
  "conflict_choice \<lparr>last_zero_branch = 3, done_flag = False, address = [6, 0, 0, 0, 0, 0, 0, 0]\<rparr> 2 = 4"
  by (simp_all add: conflict_choice_def)

lemma bus4_inv_3:
  "search_inv bus4 6 3 3 (\<lparr>sim_devices = bus4, sim_mode = SimSearch 3 0 [6]\<rparr>, tr)
     \<lparr>last_zero_branch = 3, done_flag = False, address = [22, 0, 0, 0, 0, 0, 0, 0]\<rparr>"
proof -
  have "addr_bit [22, 0, 0, 0, 0, 0, 0, 0] q = bit (6 :: uint64) q" if "q < 3" for q
  proof -
    from that consider "q = 0" | "q = 1" | "q = 2" by linarith
    then show ?thesis by cases (simp_all add: addr_bit_def)
  qed
  then show ?thesis
    unfolding search_inv_def bus4_filter_3 by simp
qed

lemma bus4_target_3: "target bus4 3 6"
  unfolding target_def
proof (intro conjI allI impI)
  show "6 \<in> set bus4" by simp
next
  fix q assume "branch bus4 6 q" "int q = 3"
  then show "bit (6 :: uint64) q" using bus4_no_branch_6 [of q] by simp
next
  fix q assume "branch bus4 6 q" "3 < int q"
  then show "\<not> bit (6 :: uint64) q" using bus4_no_branch_6 [of q] by simp
qed

lemma bus4_no_hazard_3: "no_hazard bus4 3 6"
  unfolding no_hazard_def
proof (intro allI impI, elim conjE)
  fix p q :: nat
  assume "int q < 3" "q mod 8 = 2 * (p mod 8)" "0 < p mod 8"
  then have "q = 2" by simp
  then show "bit (6 :: uint64) q" by simp
qed

lemma bus4_cycle_3:
  assumes "sim_devices (fst w2) = bus4"
  shows "\<exists>w3. searchDevices sim_bus w2 SEARCH_ROM
        \<lparr>last_zero_branch = 3, done_flag = False, address = [2, 0, 0, 0, 0, 0, 0, 0]\<rparr>
      = (0, w3, \<lparr>last_zero_branch = 3, done_flag = True, address = [6, 0, 0, 0, 0, 0, 0, 0]\<rparr>)"
proof -
  let ?stA = "\<lparr>last_zero_branch = 3, done_flag = False, address = [2, 0, 0, 0, 0, 0, 0, 0]\<rparr>"
  let ?stB = "\<lparr>last_zero_branch = 3, done_flag = False, address = [6, 0, 0, 0, 0, 0, 0, 0]\<rparr>"
  let ?stC = "\<lparr>last_zero_branch = 3, done_flag = False, address = [22, 0, 0, 0, 0, 0, 0, 0]\<rparr>"
  obtain tr where enter: "searchDevices sim_bus w2 SEARCH_ROM ?stA
      = searchNext sim_bus (\<lparr>sim_devices = bus4, sim_mode = SimSearch 0 0 bus4\<rparr>, tr) ?stA"
    using sim_searchDevices_enter [OF assms, of ?stA] by auto
  let ?e0 = "\<lparr>sim_devices = bus4, sim_mode = SimSearch 0 0 bus4\<rparr>"
  let ?e1 = "\<lparr>sim_devices = bus4, sim_mode = SimSearch 1 0 bus4\<rparr>"
  let ?e2 = "\<lparr>sim_devices = bus4, sim_mode = SimSearch 2 0 [2, 10, 6]\<rparr>"
  let ?e3 = "\<lparr>sim_devices = bus4, sim_mode = SimSearch 3 0 [6]\<rparr>"
  have q0: "(0 :: nat) + 1 = 1"
    "filter (\<lambda>d. bit d 0 = False) bus4 = bus4"
    "?stA\<lparr>address := write_address_bit (address ?stA) (0 div 8) (0 mod 8) 0\<rparr> = ?stA"
    by (simp_all add: bus4_writes)
  have "\<exists>tr1. search_bits sim_bus 0 (?e0, tr) ?stA (- 1)
      = search_bits sim_bus (0 + 1)
         (\<lparr>sim_devices = bus4, sim_mode = SimSearch (0 + 1) 0 (filter (\<lambda>d. bit d 0 = False) bus4)\<rparr>, tr1)
         (?stA\<lparr>address := write_address_bit (address ?stA) (0 div 8) (0 mod 8) 0\<rparr>) (- 1)"
    by (rule sim_step_zero) (simp_all only: bus4_reads_0 fst_conv, simp_all)
  then obtain tr1 where s0: "search_bits sim_bus 0 (?e0, tr) ?stA (- 1)
      = search_bits sim_bus 1 (?e1, tr1) ?stA (- 1)"
    unfolding q0 by blast
  have q1: "(1 :: nat) + 1 = 2"
    "filter (\<lambda>d. bit d 1 = (conflict_choice ?stA 1 \<noteq> 0)) bus4 = [2, 10, 6]"
    "?stA\<lparr>address := write_address_bit (address ?stA) (1 div 8) (1 mod 8) (conflict_choice ?stA 1)\<rparr>
       = ?stB"
    "(if conflict_choice ?stA 1 = 0 then int 1 else - 1) = - 1"
    by (simp_all only: bus4_choices) (simp_all add: bus4_writes)
  have "\<exists>tr2. search_bits sim_bus 1 (?e1, tr1) ?stA (- 1)
      = search_bits sim_bus (1 + 1)
         (\<lparr>sim_devices = bus4, sim_mode = SimSearch (1 + 1) 0
             (filter (\<lambda>d. bit d 1 = (conflict_choice ?stA 1 \<noteq> 0)) bus4)\<rparr>, tr2)
         (?stA\<lparr>address := write_address_bit (address ?stA) (1 div 8) (1 mod 8) (conflict_choice ?stA 1)\<rparr>)
         (if conflict_choice ?stA 1 = 0 then int 1 else - 1)"
    by (rule sim_step_conflict) (simp_all only: bus4_reads_1 fst_conv, simp_all)
  then obtain tr2 where s1: "search_bits sim_bus 1 (?e1, tr1) ?stA (- 1)
      = search_bits sim_bus 2 (?e2, tr2) ?stB (- 1)"
    unfolding q1 by blast
  have q2: "(2 :: nat) + 1 = 3"
    "filter (\<lambda>d. bit d 2 = (conflict_choice ?stB 2 \<noteq> 0)) [2, 10, 6 :: uint64] = [6]"
    "?stB\<lparr>address := write_address_bit (address ?stB) (2 div 8) (2 mod 8) (conflict_choice ?stB 2)\<rparr>
       = ?stC"
    "(if conflict_choice ?stB 2 = 0 then int 2 else - 1) = - 1"
    by (simp_all only: bus4_choices) (simp_all add: bus4_writes)
  have "\<exists>tr3. search_bits sim_bus 2 (?e2, tr2) ?stB (- 1)
      = search_bits sim_bus (2 + 1)
         (\<lparr>sim_devices = bus4, sim_mode = SimSearch (2 + 1) 0
             (filter (\<lambda>d. bit d 2 = (conflict_choice ?stB 2 \<noteq> 0)) [2, 10, 6])\<rparr>, tr3)
         (?stB\<lparr>address := write_address_bit (address ?stB) (2 div 8) (2 mod 8) (conflict_choice ?stB 2)\<rparr>)
         (if conflict_choice ?stB 2 = 0 then int 2 else - 1)"
    by (rule sim_step_conflict) (simp_all only: bus4_reads_2 fst_conv, simp_all)
  then obtain tr3 where s2: "search_bits sim_bus 2 (?e2, tr2) ?stB (- 1)
      = search_bits sim_bus 3 (?e3, tr3) ?stC (- 1)"
    unfolding q2 by blast
  from search_bits_sim [OF bus4_inv_3 _ bus4_target_3 bus4_no_hazard_3, of tr3 "- 1"]
  obtain w' st' where
    s3: "search_bits sim_bus 3 (\<lparr>sim_devices = bus4, sim_mode = SimSearch 3 0 [6]\<rparr>, tr3) ?stC (- 1)
      = (True, w', st', last_zero bus4 6 3 (- 1))"
    and inv: "search_inv bus4 6 3 64 w' st'" and dn: "done_flag st' = done_flag ?stC"
    by auto
  have lz: "last_zero bus4 6 3 (- 1) = - 1"
    using bus4_no_branch_6 by (intro last_zero_none) (simp add: zero_branch_def)
  from inv have "address st' = rom_bytes 6" "last_zero_branch st' = 3"
    using search_inv_final [OF inv] by (simp_all add: search_inv_def)
  with dn have "st' = \<lparr>last_zero_branch = 3, done_flag = False, address = [6, 0, 0, 0, 0, 0, 0, 0]\<rparr>"
    by (intro state_eqI) (simp_all add: rom_bytes_6)
  with s0 s1 s2 s3 lz have "searchNext sim_bus
      (\<lparr>sim_devices = bus4, sim_mode = SimSearch 0 0 bus4\<rparr>, tr) ?stA
    = (0, w', \<lparr>last_zero_branch = 3, done_flag = True, address = [6, 0, 0, 0, 0, 0, 0, 0]\<rparr>)"
    by (simp add: searchNext_def)
  with enter show ?thesis by simp
qed

text \<open>
  C2 fails on the code. On the bus with the four devices 0x00, 0x02, 0x0A and 0x06 (low
  ROM byte; all other bytes 0) the third cycle starts with \<^verbatim>\<open>last_zero_branch = 3\<close> and the
  address 0x02 of the second cycle. Positions 1 and 2 read as conflicts and lie before
  position 3. At position 1 the held bit 1 is replayed, and the write into the address
  also sets bit 2; at position 2 the address held 0 when the cycle started, but the
  code now finds 1 there and chooses 1. The cycle ends at device 0x06 with no branch
  recorded, so the search is done and device 0x0A is never discovered.
\<close>

theorem replay_skips_device:
  "search_cycles 4 sim_bus (sim_world [0, 2, 10, 6]) SEARCH_ROM
      (snd (onewireSearchInit uninitialised))
   = [(0, \<lparr>last_zero_branch = 1, done_flag = False, address = [0, 0, 0, 0, 0, 0, 0, 0]\<rparr>),
      (0, \<lparr>last_zero_branch = 3, done_flag = False, address = [2, 0, 0, 0, 0, 0, 0, 0]\<rparr>),
      (0, \<lparr>last_zero_branch = 3, done_flag = True, address = [6, 0, 0, 0, 0, 0, 0, 0]\<rparr>),
      (1, \<lparr>last_zero_branch = 3, done_flag = True, address = [6, 0, 0, 0, 0, 0, 0, 0]\<rparr>)]"
proof -
  let ?st1 = "\<lparr>last_zero_branch = 1, done_flag = False, address = [0, 0, 0, 0, 0, 0, 0, 0]\<rparr>"
  let ?st2 = "\<lparr>last_zero_branch = 3, done_flag = False, address = [2, 0, 0, 0, 0, 0, 0, 0]\<rparr>"
  let ?st3 = "\<lparr>last_zero_branch = 3, done_flag = True, address = [6, 0, 0, 0, 0, 0, 0, 0]\<rparr>"
  from bus4_cycle_1 obtain w1 where
    c1: "searchDevices sim_bus (sim_world bus4) SEARCH_ROM (snd (onewireSearchInit uninitialised))
      = (0, w1, ?st1)" and e1: "sim_devices (fst w1) = bus4" and d1: "discovered bus4 0 ?st1"
    by blast
  from bus4_cycle_2 [OF e1 d1] obtain w2 where
    c2: "searchDevices sim_bus w1 SEARCH_ROM ?st1 = (0, w2, ?st2)"
    and e2: "sim_devices (fst w2) = bus4"
    by blast
  from bus4_cycle_3 [OF e2] obtain w3 where
    c3: "searchDevices sim_bus w2 SEARCH_ROM ?st2 = (0, w3, ?st3)"
    by blast
  have c4: "searchDevices sim_bus w3 SEARCH_ROM ?st3 = (1, w3, ?st3)"
    by (simp add: searchDevices_def)
  have four: "(4 :: nat) = Suc (Suc (Suc (Suc 0)))"
    by simp
  have "search_cycles (Suc (Suc (Suc (Suc 0)))) sim_bus (sim_world bus4) SEARCH_ROM
      (snd (onewireSearchInit uninitialised))
    = [(0, ?st1), (0, ?st2), (0, ?st3), (1, ?st3)]"
    by (simp add: c1 c2 c3 c4)
  then show ?thesis
    by (simp only: four)
qed

end
